theory Spec2Isabelle
  imports Complex_Main "HOL-Library.Sublist"
begin

section \<open>Go strings\<close>

text \<open>
  A Go \<^verbatim>\<open>string\<close> is a sequence of bytes: \<^verbatim>\<open>len\<close> counts bytes and \<^verbatim>\<open>s[i:j]\<close> cuts at
  byte offsets. It is modelled as \<^typ>\<open>string\<close>, a list of 8-bit characters. Go's \<^verbatim>\<open>int\<close>
  (indices, \<^verbatim>\<open>-1\<close> for "not found") is \<^typ>\<open>int\<close>; no index of a string reaches the end of
  the 64-bit range.
\<close>

abbreviation byte :: "char \<Rightarrow> nat" where
  "byte c \<equiv> of_char c"

text \<open>
  What can leave a function other than its result: a run-time panic of a slice
  expression (\<^verbatim>\<open>slice bounds out of range [lo:hi]\<close>), or a non-nil \<^verbatim>\<open>error\<close> value.
\<close>

datatype failure = SliceBoundsOutOfRange int int | Error string

text \<open>
  \<^verbatim>\<open>s[lo:hi]\<close>: in range when \<^verbatim>\<open>0 <= lo <= hi <= len(s)\<close>, a run-time panic otherwise.
\<close>

definition slice :: "string \<Rightarrow> int \<Rightarrow> int \<Rightarrow> failure + string" where
  "slice s lo hi =
     (if 0 \<le> lo \<and> lo \<le> hi \<and> hi \<le> int (length s)
      then Inr (take (nat (hi - lo)) (drop (nat lo) s))
      else Inl (SliceBoundsOutOfRange lo hi))"

text \<open>\<^verbatim>\<open>strings.HasPrefix\<close>, \<^verbatim>\<open>strings.HasSuffix\<close>, \<^verbatim>\<open>strings.TrimPrefix\<close>, \<^verbatim>\<open>strings.TrimSuffix\<close>.\<close>

definition HasPrefix :: "string \<Rightarrow> string \<Rightarrow> bool" where
  "HasPrefix s p = (length p \<le> length s \<and> take (length p) s = p)"

definition HasSuffix :: "string \<Rightarrow> string \<Rightarrow> bool" where
  "HasSuffix s p = (length p \<le> length s \<and> drop (length s - length p) s = p)"

definition TrimPrefix :: "string \<Rightarrow> string \<Rightarrow> string" where
  "TrimPrefix s p = (if HasPrefix s p then drop (length p) s else s)"

definition TrimSuffix :: "string \<Rightarrow> string \<Rightarrow> string" where
  "TrimSuffix s p = (if HasSuffix s p then take (length s - length p) s else s)"

text \<open>
  \<^verbatim>\<open>strings.Index(s, sep)\<close>: the offset of the first occurrence of \<^verbatim>\<open>sep\<close> in \<^verbatim>\<open>s\<close>, or
  \<^verbatim>\<open>-1\<close>; \<^verbatim>\<open>strings.LastIndex\<close>: the offset of the last one, or \<^verbatim>\<open>-1\<close>.
\<close>

fun Index :: "string \<Rightarrow> string \<Rightarrow> int" where
  "Index [] sep = (if sep = [] then 0 else -1)"
| "Index (c # t) sep =
     (if HasPrefix (c # t) sep then 0
      else (let i = Index t sep in if i < 0 then -1 else i + 1))"

fun LastIndex :: "string \<Rightarrow> string \<Rightarrow> int" where
  "LastIndex [] sep = (if sep = [] then 0 else -1)"
| "LastIndex (c # t) sep =
     (let i = LastIndex t sep in
      if 0 \<le> i then i + 1
      else if HasPrefix (c # t) sep then 0 else -1)"

section \<open>UTF-8 decoding and white space\<close>

text \<open>
  \<^verbatim>\<open>strings.TrimSpace\<close> removes leading and trailing white space "as defined by Unicode",
  so it reads the bytes as UTF-8. Runes are natural numbers; \<^verbatim>\<open>utf8.RuneError\<close> is
  \<^verbatim>\<open>U+FFFD\<close>, \<^verbatim>\<open>utf8.RuneSelf\<close> is \<^verbatim>\<open>0x80\<close>, \<^verbatim>\<open>utf8.UTFMax\<close> is 4.
\<close>

definition RuneError :: nat where
  "RuneError = 0xFFFD"

definition RuneSelf :: nat where
  "RuneSelf = 0x80"

definition UTFMax :: int where
  "UTFMax = 4"

text \<open>
  \<^verbatim>\<open>utf8.DecodeRuneInString\<close>: the first rune of the string and its width in bytes;
  \<^verbatim>\<open>(RuneError, 0)\<close> on the empty string and \<^verbatim>\<open>(RuneError, 1)\<close> on an invalid encoding.
  The library's table \<^verbatim>\<open>first\<close> gives, for the leading byte, the width (2 for
  \<^verbatim>\<open>C2..DF\<close>, 3 for \<^verbatim>\<open>E0..EF\<close>, 4 for \<^verbatim>\<open>F0..F4\<close>, invalid for \<^verbatim>\<open>80..C1\<close> and
  \<^verbatim>\<open>F5..FF\<close>) and the range accepted for the second byte (\<^verbatim>\<open>A0..BF\<close> after \<^verbatim>\<open>E0\<close>,
  \<^verbatim>\<open>80..9F\<close> after \<^verbatim>\<open>ED\<close>, \<^verbatim>\<open>90..BF\<close> after \<^verbatim>\<open>F0\<close>, \<^verbatim>\<open>80..8F\<close> after \<^verbatim>\<open>F4\<close>,
  \<^verbatim>\<open>80..BF\<close> otherwise); every later byte lies in \<^verbatim>\<open>80..BF\<close>. The masks of the
  library (\<^verbatim>\<open>s0&0x1F\<close>, \<^verbatim>\<open>s1&0x3F\<close>, shifts by 6) are written as \<open>mod\<close> and
  multiplication.
\<close>

definition rune_width :: "nat \<Rightarrow> nat" where
  "rune_width s0 = (if s0 < 0xE0 then 2 else if s0 < 0xF0 then 3 else 4)"

definition accept_lo :: "nat \<Rightarrow> nat" where
  "accept_lo s0 = (if s0 = 0xE0 then 0xA0 else if s0 = 0xF0 then 0x90 else 0x80)"

definition accept_hi :: "nat \<Rightarrow> nat" where
  "accept_hi s0 = (if s0 = 0xED then 0x9F else if s0 = 0xF4 then 0x8F else 0xBF)"

definition DecodeRuneInString :: "string \<Rightarrow> nat \<times> nat" where
  "DecodeRuneInString s =
     (let n = length s in
      if n < 1 then (RuneError, 0)
      else let s0 = byte (s ! 0) in
      if s0 < RuneSelf then (s0, 1)
      else if s0 < 0xC2 \<or> 0xF4 < s0 then (RuneError, 1)
      else let sz = rune_width s0 in
      if n < sz then (RuneError, 1)
      else let s1 = byte (s ! 1) in
      if s1 < accept_lo s0 \<or> accept_hi s0 < s1 then (RuneError, 1)
      else if sz \<le> 2 then ((s0 mod 0x20) * 0x40 + s1 mod 0x40, 2)
      else let s2 = byte (s ! 2) in
      if s2 < 0x80 \<or> 0xBF < s2 then (RuneError, 1)
      else if sz \<le> 3 then ((s0 mod 0x10) * 0x1000 + (s1 mod 0x40) * 0x40 + s2 mod 0x40, 3)
      else let s3 = byte (s ! 3) in
      if s3 < 0x80 \<or> 0xBF < s3 then (RuneError, 1)
      else ((s0 mod 0x08) * 0x40000 + (s1 mod 0x40) * 0x1000 + (s2 mod 0x40) * 0x40
              + s3 mod 0x40, 4))"

lemma DecodeRuneInString_width: "s \<noteq> [] \<Longrightarrow> 1 \<le> snd (DecodeRuneInString s)"
  by (simp add: DecodeRuneInString_def Let_def)

text \<open>\<^verbatim>\<open>utf8.RuneStart(b)\<close>: \<^verbatim>\<open>b&0xC0 != 0x80\<close>, that is, not a continuation byte.\<close>

definition RuneStart :: "char \<Rightarrow> bool" where
  "RuneStart b = (\<not> (0x80 \<le> byte b \<and> byte b \<le> 0xBF))"

text \<open>
  The backward scan of \<^verbatim>\<open>utf8.DecodeLastRuneInString\<close>:
  \<^verbatim>\<open>for start--; start >= lim; start-- { if RuneStart(s[start]) { break } }\<close>,
  entered here after the first \<^verbatim>\<open>start--\<close>.
\<close>

function scan_back :: "string \<Rightarrow> int \<Rightarrow> int \<Rightarrow> int" where
  "scan_back s start low =
     (if start \<ge> low
      then (if RuneStart (s ! nat start) then start else scan_back s (start - 1) low)
      else start)"
  by pat_completeness auto
termination
  by (relation "measure (\<lambda>(s, start, low). nat (start - low + 1))") auto

declare scan_back.simps [simp del]

text \<open>
  \<^verbatim>\<open>utf8.DecodeLastRuneInString\<close>: the last rune of the string and its width. It steps
  back at most \<^verbatim>\<open>UTFMax\<close> bytes to a byte that can start a rune, decodes forward from
  there, and answers \<^verbatim>\<open>(RuneError, 1)\<close> unless that rune ends exactly at the end.
\<close>

definition last_rune_start :: "string \<Rightarrow> int" where
  "last_rune_start s =
     (let stop = int (length s);
          start = stop - 1;
          low = (if stop - UTFMax < 0 then 0 else stop - UTFMax);
          start = scan_back s (start - 1) low
      in if start < 0 then 0 else start)"

definition DecodeLastRuneInString :: "string \<Rightarrow> nat \<times> nat" where
  "DecodeLastRuneInString s =
     (let stop = int (length s) in
      if stop = 0 then (RuneError, 0)
      else let r = byte (s ! nat (stop - 1)) in
      if r < RuneSelf then (r, 1)
      else let start = last_rune_start s;
               (r, wid) = DecodeRuneInString (take (nat (stop - start)) (drop (nat start) s))
      in if start + int wid \<noteq> stop then (RuneError, 1) else (r, wid))"

text \<open>
  \<^verbatim>\<open>unicode.IsSpace\<close>: in Latin-1 the runes \<^verbatim>\<open>'\t', '\n', '\v', '\f', '\r', ' '\<close>,
  \<^verbatim>\<open>U+0085\<close> and \<^verbatim>\<open>U+00A0\<close>; beyond it the runes with the property White_Space.
\<close>

definition IsSpace :: "nat \<Rightarrow> bool" where
  "IsSpace r =
     (if r \<le> 0xFF
      then r = 0x09 \<or> r = 0x0A \<or> r = 0x0B \<or> r = 0x0C \<or> r = 0x0D \<or> r = 0x20
           \<or> r = 0x85 \<or> r = 0xA0
      else r = 0x1680 \<or> (0x2000 \<le> r \<and> r \<le> 0x200A) \<or> r = 0x2028 \<or> r = 0x2029
           \<or> r = 0x202F \<or> r = 0x205F \<or> r = 0x3000)"

text \<open>
  \<^verbatim>\<open>strings.TrimLeftFunc(s, unicode.IsSpace)\<close>: \<^verbatim>\<open>indexFunc\<close> ranges over the runes of
  \<^verbatim>\<open>s\<close> (an invalid byte is the rune \<^verbatim>\<open>RuneError\<close> of width 1) up to the first one
  that is not white space, and the result is \<^verbatim>\<open>s\<close> from that offset on (empty when there
  is none).
\<close>

function TrimLeftFunc :: "string \<Rightarrow> string" where
  "TrimLeftFunc s =
     (if s = [] then []
      else (let (r, wid) = DecodeRuneInString s in
            if \<not> IsSpace r then s else TrimLeftFunc (drop wid s)))"
  by pat_completeness auto
termination
proof (relation "measure length")
  show "wf (measure length)" by simp
next
  fix s :: string and x r wid
  assume "s \<noteq> []" and x: "x = DecodeRuneInString s" "(r, wid) = x"
  with DecodeRuneInString_width [of s] have "1 \<le> wid"
    by (metis snd_conv)
  with \<open>s \<noteq> []\<close> show "(drop wid s, s) \<in> measure length" by simp
qed

declare TrimLeftFunc.simps [simp del]

text \<open>
  \<^verbatim>\<open>lastIndexFunc(s, unicode.IsSpace, false)\<close>: the offset at which the last rune that is
  not white space starts, reading runes from the end, or \<^verbatim>\<open>-1\<close>.
\<close>

lemma scan_back_le: "scan_back s a low \<le> a"
  by (induction s a low rule: scan_back.induct) (subst scan_back.simps, auto)

lemma last_rune_start_bounds:
  assumes "s \<noteq> []"
  shows "0 \<le> last_rune_start s" and "last_rune_start s < int (length s)"
proof -
  show "0 \<le> last_rune_start s" by (simp add: last_rune_start_def Let_def)
  have "0 < int (length s)" using assms by simp
  then show "last_rune_start s < int (length s)"
    using scan_back_le [of s "int (length s) - 1 - 1"]
    by (simp add: last_rune_start_def Let_def) (smt (verit))
qed

lemma DecodeLastRuneInString_width:
  assumes "s \<noteq> []"
  shows "1 \<le> snd (DecodeLastRuneInString s)"
proof -
  have "drop (nat (last_rune_start s)) s \<noteq> []"
    using last_rune_start_bounds [OF assms] by simp
  then have "1 \<le> snd (DecodeRuneInString (drop (nat (last_rune_start s)) s))"
    by (rule DecodeRuneInString_width)
  then show ?thesis
    using assms by (simp add: DecodeLastRuneInString_def Let_def split_beta)
qed

function lastIndexFunc :: "string \<Rightarrow> int" where
  "lastIndexFunc s =
     (if s = [] then -1
      else (let (r, wid) = DecodeLastRuneInString s; i = int (length s) - int wid in
            if \<not> IsSpace r then i else lastIndexFunc (take (nat i) s)))"
  by pat_completeness auto
termination
proof (relation "measure length")
  show "wf (measure length)" by simp
next
  fix s :: string and x r wid i
  assume "s \<noteq> []" and x: "x = DecodeLastRuneInString s" "(r, wid) = x"
    and i: "i = int (length s) - int wid"
  from x DecodeLastRuneInString_width [OF \<open>s \<noteq> []\<close>] have "1 \<le> wid"
    by (metis snd_conv)
  moreover have "0 < length s" using \<open>s \<noteq> []\<close> by simp
  ultimately have "nat i < length s" unfolding i by linarith
  then show "(take (nat i) s, s) \<in> measure length" by simp
qed

declare lastIndexFunc.simps [simp del]

text \<open>
  \<^verbatim>\<open>strings.TrimRightFunc(s, unicode.IsSpace)\<close>: from the offset \<^verbatim>\<open>i\<close> of the last rune that
  is not white space, the end of that rune is \<^verbatim>\<open>i\<close> plus its width decoded forward when
  \<^verbatim>\<open>s[i] >= RuneSelf\<close>, and \<^verbatim>\<open>i + 1\<close> otherwise (also when \<^verbatim>\<open>i = -1\<close>).
\<close>

definition TrimRightFunc :: "string \<Rightarrow> string" where
  "TrimRightFunc s =
     (let i = lastIndexFunc s;
          i = (if i \<ge> 0 \<and> byte (s ! nat i) \<ge> RuneSelf
               then i + int (snd (DecodeRuneInString (drop (nat i) s)))
               else i + 1)
      in take (nat i) s)"

definition TrimFunc :: "string \<Rightarrow> string" where
  "TrimFunc s = TrimRightFunc (TrimLeftFunc s)"

text \<open>
  \<^verbatim>\<open>strings.TrimSpace\<close>. The library first skips ASCII white space (its table
  \<^verbatim>\<open>asciiSpace\<close>) from the left; at a byte \<^verbatim>\<open>>= RuneSelf\<close> it hands the rest to
  \<^verbatim>\<open>TrimFunc\<close>. Otherwise it skips ASCII white space from the right, and at a byte
  \<^verbatim>\<open>>= RuneSelf\<close> hands what is left to \<^verbatim>\<open>TrimRightFunc\<close>.
\<close>

definition asciiSpace :: "char \<Rightarrow> bool" where
  "asciiSpace c = (byte c = 0x09 \<or> byte c = 0x0A \<or> byte c = 0x0B \<or> byte c = 0x0C
                   \<or> byte c = 0x0D \<or> byte c = 0x20)"

definition TrimSpace :: "string \<Rightarrow> string" where
  "TrimSpace s =
     (let s1 = dropWhile asciiSpace s in
      if s1 \<noteq> [] \<and> byte (hd s1) \<ge> RuneSelf then TrimFunc s1
      else let s2 = rev (dropWhile asciiSpace (rev s1)) in
      if s2 \<noteq> [] \<and> byte (last s2) \<ge> RuneSelf then TrimRightFunc s2
      else s2)"

text \<open>
  \<^verbatim>\<open>utf8.RuneCountInString\<close> and \<^verbatim>\<open>strings.Count(s, substr)\<close>: the number of
  non-overlapping instances of \<^verbatim>\<open>substr\<close> in \<^verbatim>\<open>s\<close>; one more than the number of runes
  when \<^verbatim>\<open>substr\<close> is empty; the number of bytes equal to it when it is a single byte.
\<close>

function RuneCountInString :: "string \<Rightarrow> int" where
  "RuneCountInString s =
     (if s = [] then 0
      else 1 + RuneCountInString (drop (snd (DecodeRuneInString s)) s))"
  by pat_completeness auto
termination
proof (relation "measure length")
  show "wf (measure length)" by simp
next
  fix s :: string
  assume "s \<noteq> []"
  with DecodeRuneInString_width [of s]
  show "(drop (snd (DecodeRuneInString s)) s, s) \<in> measure length" by simp
qed

declare RuneCountInString.simps [simp del]

lemma Index_nonempty: "sep \<noteq> [] \<Longrightarrow> Index s sep \<noteq> -1 \<Longrightarrow> s \<noteq> []"
  by (cases s) auto

function count_loop :: "string \<Rightarrow> string \<Rightarrow> int" where
  "count_loop s substr =
     (if substr = [] then 0
      else (let i = Index s substr in
            if i = -1 then 0
            else 1 + count_loop (drop (nat i + length substr) s) substr))"
  by pat_completeness auto
termination
proof (relation "measure (\<lambda>(s, substr). length s)")
  show "wf (measure (\<lambda>(s, substr). length s))" by simp
next
  fix s substr :: string and i
  assume "substr \<noteq> []" "i = Index s substr" "i \<noteq> - 1"
  then have "s \<noteq> []" using Index_nonempty by blast
  with \<open>substr \<noteq> []\<close>
  show "((drop (nat i + length substr) s, substr), s, substr) \<in> measure (\<lambda>(s, substr). length s)"
    by simp
qed

declare count_loop.simps [simp del]

definition Count :: "string \<Rightarrow> string \<Rightarrow> int" where
  "Count s substr =
     (if length substr = 0 then RuneCountInString s + 1
      else if length substr = 1 then int (count_list s (substr ! 0))
      else count_loop s substr)"

section \<open>The review record\<close>

text \<open>
  The structs of \<^verbatim>\<open>ai.go\<close>. A slice is a list (a nil slice and an empty one are both
  \<open>[]\<close>). The scores are \<^verbatim>\<open>float64\<close>; \<^verbatim>\<open>encoding/json\<close> stores only finite values (a
  number out of range is an error), and the code compares them with \<^verbatim>\<open>0\<close> and sets them
  to \<^verbatim>\<open>50\<close>, so they are modelled by \<^typ>\<open>real\<close>.
\<close>

record CodeIssue =
  Type :: string
  Severity :: string
  LineNumber :: int
  Description :: string
  Solution :: string

record CodeSuggestion =
  Category :: string
  Priority :: string
  Description :: string
  Example :: string

record ComplexityAnalysis =
  TimeComplexity :: string
  SpaceComplexity :: string
  CanOptimize :: bool
  OptimizedApproach :: string

record AICodeReview =
  OverallScore :: real
  Issues :: "CodeIssue list"
  Suggestions :: "CodeSuggestion list"
  InterviewerFeedback :: string
  FollowUpQuestions :: "string list"
  Complexity :: ComplexityAnalysis
  ReadabilityScore :: real
  TestCoverage :: string

section \<open>The extraction layer of \<^verbatim>\<open>ai.go\<close>\<close>

text \<open>
  \<^verbatim>\<open>createFallbackReview(reason, rawResponse)\<close>. \<^verbatim>\<open>fmt.Sprintf\<close> with \<^verbatim>\<open>%s\<close> verbs is
  concatenation.
\<close>

definition createFallbackReview :: "string \<Rightarrow> string \<Rightarrow> AICodeReview" where
  \<open>createFallbackReview reason rawResponse =
     (let feedback = rawResponse;
          feedback = (if int (length feedback) > 500 then take 500 feedback @ ''...''
                      else feedback);
          feedback = (if feedback = ''''
                      then ''AI provided an empty or malformed response. Please try again.''
                      else feedback)
      in \<lparr> OverallScore = 50,
           Issues = [
             \<lparr> Type = ''parsing'',
               Severity = ''medium'',
               LineNumber = 0,
               CodeIssue.Description = ''AI response parsing issue: '' @ reason,
               Solution = ''Try running the AI review again, or check your code for syntax issues.'' \<rparr>],
           Suggestions = [
             \<lparr> Category = ''troubleshooting'',
               Priority = ''medium'',
               CodeSuggestion.Description = ''If this keeps happening, try simplifying your code or breaking it into smaller functions.'',
               Example = '''' \<rparr>],
           InterviewerFeedback = ''I'm having trouble analyzing your code automatically. ''
             @ feedback @ '' Let's focus on the core logic - can you walk me through your approach?'',
           FollowUpQuestions = [
             ''Can you explain your algorithm step by step?'',
             ''What's the time complexity of your solution?'',
             ''How would you handle edge cases?''],
           Complexity =
             \<lparr> TimeComplexity = ''Unable to analyze'',
               SpaceComplexity = ''Unable to analyze'',
               CanOptimize = False,
               OptimizedApproach = ''Rerun analysis after fixing any syntax issues'' \<rparr>,
           ReadabilityScore = 50,
           TestCoverage = ''Unable to assess due to parsing error'' \<rparr>)\<close>

text \<open>
  \<^verbatim>\<open>json.Unmarshal\<close> belongs to Go's standard library, not to this repository. The
  functions that call it take it as the parameter \<open>unmarshal\<close>: \<open>unmarshal s = Inr v\<close>
  when \<^verbatim>\<open>json.Unmarshal([]byte(s), &v)\<close> returns \<^verbatim>\<open>nil\<close> and has filled the zero-valued
  \<^verbatim>\<open>v\<close>, and \<open>unmarshal s = Inl e\<close> when it returns the error \<open>e\<close>.
\<close>

type_synonym 'a Unmarshal = "string \<Rightarrow> string + 'a"

text \<open>
  \<^verbatim>\<open>parseAIResponse(response)\<close>. Go's result pair \<^verbatim>\<open>(review, nil)\<close> is \<open>Inr review\<close>, a
  non-nil error would be \<open>Inl (Error e)\<close>, and a panic of the slice expression is
  \<open>Inl (SliceBoundsOutOfRange lo hi)\<close>. The \<^verbatim>\<open>fmt.Printf\<close> calls write a diagnostic line
  to standard output and change nothing that is returned; they are left out.
\<close>

definition parseAIResponse :: "AICodeReview Unmarshal \<Rightarrow> string \<Rightarrow> failure + AICodeReview" where
  \<open>parseAIResponse unmarshal response =
     (let response = TrimSpace response;
          response = TrimPrefix response ''```json'';
          response = TrimPrefix response ''```'';
          response = TrimSuffix response ''```'';
          response = TrimSpace response;
          start = Index response ''{'';
          stop = LastIndex response ''}''
      in if start = -1 \<or> stop = -1
         then Inr (createFallbackReview ''No JSON found in AI response'' response)
         else case slice response start (stop + 1) of
           Inl panic \<Rightarrow> Inl panic
         | Inr jsonStr \<Rightarrow>
             (let openBraces = Count jsonStr ''{'';
                  closeBraces = Count jsonStr ''}''
              in if openBraces \<noteq> closeBraces
                 then Inr (createFallbackReview ''Incomplete JSON response'' jsonStr)
                 else case unmarshal jsonStr of
                   Inl err \<Rightarrow> Inr (createFallbackReview ''JSON parsing error'' jsonStr)
                 | Inr review \<Rightarrow>
                     if OverallScore review = 0 \<and> ReadabilityScore review = 0
                        \<and> InterviewerFeedback review = ''''
                     then Inr (createFallbackReview ''Incomplete AI response'' jsonStr)
                     else Inr review))\<close>

text \<open>\<^verbatim>\<open>parseQuestions(response)\<close>.\<close>

definition parseQuestions :: "string list Unmarshal \<Rightarrow> string \<Rightarrow> failure + string list" where
  \<open>parseQuestions unmarshal response =
     (let start = Index response ''['';
          stop = LastIndex response '']''
      in if start = -1 \<or> stop = -1
         then Inr [''What's the time complexity of your solution?'',
                   ''How would you handle edge cases?'',
                   ''Can you optimize this further?'']
         else case slice response start (stop + 1) of
           Inl panic \<Rightarrow> Inl panic
         | Inr jsonStr \<Rightarrow>
             (case unmarshal jsonStr of
                Inl err \<Rightarrow> Inr [''What's the time complexity of your solution?'',
                                ''How would you handle edge cases?'',
                                ''Can you optimize this further?'']
              | Inr questions \<Rightarrow> Inr questions))\<close>

text \<open>\<^verbatim>\<open>parseHint(response)\<close> and \<^verbatim>\<open>parseChatResponse(response)\<close>.\<close>

definition parseHint :: "string \<Rightarrow> string" where
  \<open>parseHint response =
     (let hint = TrimSpace response
      in if hint = ''''
         then ''Consider the problem step by step. What's the core requirement here?''
         else hint)\<close>

definition parseChatResponse :: "string \<Rightarrow> string" where
  \<open>parseChatResponse response =
     (let cleaned = TrimSpace response;
          cleaned = TrimPrefix cleaned ''```'';
          cleaned = TrimSuffix cleaned ''```'';
          cleaned = TrimSpace cleaned
      in if cleaned = ''''
         then ''I'm here to help! Could you rephrase your question?''
         else cleaned)\<close>

section \<open>Notions used to state the properties\<close>

text \<open>
  The text in which \<^verbatim>\<open>parseAIResponse\<close> looks for braces (its first five statements), and
  the JSON candidate it cuts out of that text: \<open>None\<close> when a brace is missing or the slice
  expression panics.
\<close>

definition cleanResponse :: "string \<Rightarrow> string" where
  \<open>cleanResponse response =
     TrimSpace (TrimSuffix (TrimPrefix (TrimPrefix (TrimSpace response) ''```json'') ''```'') ''```'')\<close>

definition candidate :: "string \<Rightarrow> string option" where
  \<open>candidate response =
     (let r = cleanResponse response;
          start = Index r ''{'';
          stop = LastIndex r ''}''
      in if start = -1 \<or> stop = -1 then None
         else case slice r start (stop + 1) of
           Inl panic \<Rightarrow> None
         | Inr jsonStr \<Rightarrow> Some jsonStr)\<close>

text \<open>The condition of the validation gate of \<^verbatim>\<open>parseAIResponse\<close>.\<close>

definition allSignalsZero :: "AICodeReview \<Rightarrow> bool" where
  \<open>allSignalsZero review =
     (OverallScore review = 0 \<and> ReadabilityScore review = 0 \<and> InterviewerFeedback review = '''')\<close>

text \<open>
  A review of which every field is populated, in the specification's words: no score is
  zero, no list and no text is empty.
\<close>

definition populated :: "AICodeReview \<Rightarrow> bool" where
  \<open>populated review =
     (OverallScore review \<noteq> 0 \<and> Issues review \<noteq> [] \<and> Suggestions review \<noteq> []
      \<and> InterviewerFeedback review \<noteq> '''' \<and> FollowUpQuestions review \<noteq> []
      \<and> TimeComplexity (Complexity review) \<noteq> ''''
      \<and> SpaceComplexity (Complexity review) \<noteq> ''''
      \<and> OptimizedApproach (Complexity review) \<noteq> ''''
      \<and> ReadabilityScore review \<noteq> 0 \<and> TestCoverage review \<noteq> '''')\<close>

text \<open>
  The feedback text of the total-failure default as the specification words it: the first
  500 bytes of the raw reply, an ellipsis when it is cut, inside the prompt.
\<close>

definition spec_echo_feedback :: "string \<Rightarrow> string" where
  \<open>spec_echo_feedback raw =
     ''I'm having trouble analyzing your code automatically. ''
     @ (if length raw > 500 then take 500 raw @ ''...'' else raw)
     @ '' Let's focus on the core logic - can you walk me through your approach?''\<close>

text \<open>
  The end of the rune that \<^verbatim>\<open>TrimRightFunc\<close> computes from the offset \<open>i\<close> that
  \<^verbatim>\<open>lastIndexFunc\<close> returned.
\<close>

definition rune_end :: "string \<Rightarrow> int \<Rightarrow> int" where
  "rune_end s i =
     (if i \<ge> 0 \<and> byte (s ! nat i) \<ge> RuneSelf
      then i + int (snd (DecodeRuneInString (drop (nat i) s)))
      else i + 1)"

text \<open>
  Sample JSON texts and the values \<^verbatim>\<open>json.Unmarshal\<close> decodes them to, for the concrete
  instances below. \<open>zero_review\<close> is the zero value of \<^verbatim>\<open>AICodeReview\<close>, with which
  \<^verbatim>\<open>var review AICodeReview\<close> starts; a key the text omits leaves its field there, and a
  key the struct does not have (\<^verbatim>\<open>"note"\<close>) is skipped. \<open>marshalled_full\<close> and
  \<open>marshalled_brace\<close> are the texts \<^verbatim>\<open>json.Marshal\<close> writes for \<open>review_full\<close> (whose slices
  are empty, not nil) and for the review decoded from \<open>json_extra_key\<close> (whose slices are
  nil). \<open>sample_unmarshal\<close> answers an error on every text that is not in the table.
\<close>

definition zero_review :: AICodeReview where
  \<open>zero_review =
     \<lparr> OverallScore = 0, Issues = [], Suggestions = [], InterviewerFeedback = '''',
       FollowUpQuestions = [],
       Complexity = \<lparr> TimeComplexity = '''', SpaceComplexity = '''', CanOptimize = False,
                      OptimizedApproach = '''' \<rparr>,
       ReadabilityScore = 0, TestCoverage = '''' \<rparr>\<close>

definition json_partial :: string where
  \<open>json_partial = ''{"overall_score": 85}''\<close>

definition json_full :: string where
  \<open>json_full = ''{"overall_score": 85, "issues": [], "suggestions": [], "interviewer_feedback": "Good job", "follow_up_questions": [], "complexity": {"time_complexity":"O(n)","space_complexity":"O(1)","can_optimize":false,"optimized_approach":""}, "readability_score": 90, "test_coverage":"ok"}''\<close>

definition review_full :: AICodeReview where
  \<open>review_full =
     \<lparr> OverallScore = 85, Issues = [], Suggestions = [], InterviewerFeedback = ''Good job'',
       FollowUpQuestions = [],
       Complexity = \<lparr> TimeComplexity = ''O(n)'', SpaceComplexity = ''O(1)'', CanOptimize = False,
                      OptimizedApproach = '''' \<rparr>,
       ReadabilityScore = 90, TestCoverage = ''ok'' \<rparr>\<close>

definition json_zero :: string where
  \<open>json_zero = ''{"overall_score": 0, "readability_score": 0, "interviewer_feedback": ""}''\<close>

definition json_brace :: string where
  \<open>json_brace = ''{"overall_score": 85, "interviewer_feedback": "use {"}''\<close>

definition json_full_brace :: string where
  \<open>json_full_brace = ''{"overall_score": 85, "issues": [], "suggestions": [], "interviewer_feedback": "Missing } at the end", "follow_up_questions": [], "complexity": {"time_complexity":"O(n)","space_complexity":"O(1)","can_optimize":false,"optimized_approach":""}, "readability_score": 90, "test_coverage":"ok"}''\<close>

definition json_extra_key :: string where
  \<open>json_extra_key = ''{"overall_score": 85, "interviewer_feedback": "{", "note": "}"}''\<close>

definition json_truncated :: string where
  \<open>json_truncated = ''{"overall_score": 60, "issues": [{"type":"bug","severity":"high","description":"leak"}''\<close>

definition marshalled_full :: string where
  \<open>marshalled_full = ''{"overall_score":85,"issues":[],"suggestions":[],"interviewer_feedback":"Good job","follow_up_questions":[],"complexity":{"time_complexity":"O(n)","space_complexity":"O(1)","can_optimize":false,"optimized_approach":""},"readability_score":90,"test_coverage":"ok"}''\<close>

definition marshalled_brace :: string where
  \<open>marshalled_brace = ''{"overall_score":85,"issues":null,"suggestions":null,"interviewer_feedback":"{","follow_up_questions":null,"complexity":{"time_complexity":"","space_complexity":"","can_optimize":false,"optimized_approach":""},"readability_score":0,"test_coverage":""}''\<close>

definition json_samples :: "(string \<times> AICodeReview) list" where
  \<open>json_samples =
     [(json_partial, zero_review\<lparr>OverallScore := 85\<rparr>),
      (json_full, review_full),
      (json_zero, zero_review),
      (json_brace, zero_review\<lparr>OverallScore := 85, InterviewerFeedback := ''use {''\<rparr>),
      (json_full_brace, review_full\<lparr>InterviewerFeedback := ''Missing } at the end''\<rparr>),
      (json_extra_key, zero_review\<lparr>OverallScore := 85, InterviewerFeedback := ''{''\<rparr>),
      (marshalled_full, review_full),
      (marshalled_brace, zero_review\<lparr>OverallScore := 85, InterviewerFeedback := ''{''\<rparr>)]\<close>

definition sample_unmarshal :: "AICodeReview Unmarshal" where
  \<open>sample_unmarshal s =
     (case map_of json_samples s of
        Some review \<Rightarrow> Inr review
      | None \<Rightarrow> Inl ''invalid character'')\<close>

text \<open>
  \<^verbatim>\<open>json.Marshal\<close> on the two sample reviews (any other review is not used).
\<close>

definition sample_marshal :: "AICodeReview \<Rightarrow> string" where
  \<open>sample_marshal review =
     (if review = review_full then marshalled_full
      else if review = zero_review\<lparr>OverallScore := 85, InterviewerFeedback := ''{''\<rparr>
      then marshalled_brace
      else ''null'')\<close>

text \<open>
  White space as the properties mean it, stated on the bytes of a text and not through the
  functions of the program. The code points to which Unicode gives the property White_Space
  are \<^verbatim>\<open>U+0009..U+000D\<close>, \<^verbatim>\<open>U+0020\<close>, \<^verbatim>\<open>U+0085\<close>, \<^verbatim>\<open>U+00A0\<close>, \<^verbatim>\<open>U+1680\<close>,
  \<^verbatim>\<open>U+2000..U+200A\<close>, \<^verbatim>\<open>U+2028\<close>, \<^verbatim>\<open>U+2029\<close>, \<^verbatim>\<open>U+202F\<close>, \<^verbatim>\<open>U+205F\<close> and \<^verbatim>\<open>U+3000\<close>;
  \<open>utf8_encode\<close> is the UTF-8 encoding of a code point, and \<open>white_space_chars\<close> lists
  the encodings of these code points (lemma \<open>white_space_chars_encode\<close> below). A text
  starts, or ends, with white space when one of them is a prefix, or a suffix, of it;
  \<open>white_space s\<close> says that \<open>s\<close> is a sequence of white-space characters and nothing
  else.
\<close>

definition white_space_code_points :: "nat list" where
  "white_space_code_points =
     [0x09, 0x0A, 0x0B, 0x0C, 0x0D, 0x20, 0x85, 0xA0, 0x1680,
      0x2000, 0x2001, 0x2002, 0x2003, 0x2004, 0x2005, 0x2006, 0x2007, 0x2008, 0x2009, 0x200A,
      0x2028, 0x2029, 0x202F, 0x205F, 0x3000]"

definition utf8_encode :: "nat \<Rightarrow> string" where
  "utf8_encode r =
     (if r < 0x80 then [char_of r]
      else if r < 0x800 then [char_of (0xC0 + r div 0x40), char_of (0x80 + r mod 0x40)]
      else if r < 0x10000
      then [char_of (0xE0 + r div 0x1000), char_of (0x80 + r div 0x40 mod 0x40),
            char_of (0x80 + r mod 0x40)]
      else [char_of (0xF0 + r div 0x40000), char_of (0x80 + r div 0x1000 mod 0x40),
            char_of (0x80 + r div 0x40 mod 0x40), char_of (0x80 + r mod 0x40)])"

definition white_space_chars :: "string list" where
  "white_space_chars =
     [[CHR 0x09], [CHR 0x0A], [CHR 0x0B], [CHR 0x0C], [CHR 0x0D], [CHR 0x20],
      [CHR 0xC2, CHR 0x85], [CHR 0xC2, CHR 0xA0], [CHR 0xE1, CHR 0x9A, CHR 0x80],
      [CHR 0xE2, CHR 0x80, CHR 0x80], [CHR 0xE2, CHR 0x80, CHR 0x81],
      [CHR 0xE2, CHR 0x80, CHR 0x82], [CHR 0xE2, CHR 0x80, CHR 0x83],
      [CHR 0xE2, CHR 0x80, CHR 0x84], [CHR 0xE2, CHR 0x80, CHR 0x85],
      [CHR 0xE2, CHR 0x80, CHR 0x86], [CHR 0xE2, CHR 0x80, CHR 0x87],
      [CHR 0xE2, CHR 0x80, CHR 0x88], [CHR 0xE2, CHR 0x80, CHR 0x89],
      [CHR 0xE2, CHR 0x80, CHR 0x8A], [CHR 0xE2, CHR 0x80, CHR 0xA8],
      [CHR 0xE2, CHR 0x80, CHR 0xA9], [CHR 0xE2, CHR 0x80, CHR 0xAF],
      [CHR 0xE2, CHR 0x81, CHR 0x9F], [CHR 0xE3, CHR 0x80, CHR 0x80]]"

definition starts_with_space :: "string \<Rightarrow> bool" where
  "starts_with_space s = (\<exists>e \<in> set white_space_chars. prefix e s)"

definition ends_with_space :: "string \<Rightarrow> bool" where
  "ends_with_space s = (\<exists>e \<in> set white_space_chars. suffix e s)"

lemma white_space_chars_nonempty: "e \<in> set white_space_chars \<Longrightarrow> e \<noteq> []"
  by (auto simp: white_space_chars_def)

function white_space :: "string \<Rightarrow> bool" where
  "white_space s =
     (if s = [] then True
      else \<exists>e \<in> set white_space_chars.
             if prefix e s then white_space (drop (length e) s) else False)"
  by pat_completeness auto
termination
proof (relation "measure length")
  show "wf (measure length)" by simp
next
  fix s e :: string
  assume "s \<noteq> []" "e \<in> set white_space_chars" "prefix e s"
  moreover from this(2) have "e \<noteq> []" by (rule white_space_chars_nonempty)
  ultimately show "(drop (length e) s, s) \<in> measure length" by simp
qed

declare white_space.simps [simp del]

text \<open>
  A text without braces, and the text from the first \<^verbatim>\<open>{\<close> to the last \<^verbatim>\<open>}\<close> of a text:
  \<open>None\<close> when a brace is missing or the first \<^verbatim>\<open>{\<close> lies more than one place after the
  last \<^verbatim>\<open>}\<close>.
\<close>

definition brace_free :: "string \<Rightarrow> bool" where
  "brace_free p = (CHR ''{'' \<notin> set p \<and> CHR ''}'' \<notin> set p)"


section \<open>Properties of the string functions\<close>

subsection \<open>Decoding\<close>

lemma Decode_Cons:
  "DecodeRuneInString (c # t) =
     (let s0 = byte c in
      if s0 < 0x80 then (s0, 1)
      else if s0 < 0xC2 \<or> 0xF4 < s0 then (RuneError, 1)
      else (case t of [] \<Rightarrow> (RuneError, 1) | c1 # t1 \<Rightarrow>
        (let s1 = byte c1 in
        if s1 < accept_lo s0 \<or> accept_hi s0 < s1 then (RuneError, 1)
        else if s0 < 0xE0 then ((s0 mod 0x20) * 0x40 + s1 mod 0x40, 2)
        else (case t1 of [] \<Rightarrow> (RuneError, 1) | c2 # t2 \<Rightarrow>
          (let s2 = byte c2 in
          if s2 < 0x80 \<or> 0xBF < s2 then (RuneError, 1)
          else if s0 < 0xF0 then ((s0 mod 0x10) * 0x1000 + (s1 mod 0x40) * 0x40 + s2 mod 0x40, 3)
          else (case t2 of [] \<Rightarrow> (RuneError, 1) | c3 # t3 \<Rightarrow>
            (let s3 = byte c3 in
            if s3 < 0x80 \<or> 0xBF < s3 then (RuneError, 1)
            else ((s0 mod 0x08) * 0x40000 + (s1 mod 0x40) * 0x1000 + (s2 mod 0x40) * 0x40
                    + s3 mod 0x40, 4))))))))"
proof (cases t)
  case Nil
  then show ?thesis
    by (simp add: DecodeRuneInString_def Let_def RuneSelf_def rune_width_def)
next
  case t: (Cons c1 t1)
  show ?thesis
  proof (cases t1)
    case Nil
    then show ?thesis unfolding t
      by (simp add: DecodeRuneInString_def Let_def RuneSelf_def rune_width_def)
  next
    case t1: (Cons c2 t2)
    show ?thesis
    proof (cases t2)
      case Nil
      then show ?thesis unfolding t t1
        by (simp add: DecodeRuneInString_def Let_def RuneSelf_def rune_width_def)
    next
      case (Cons c3 t3)
      then show ?thesis unfolding t t1
        by (simp add: DecodeRuneInString_def Let_def RuneSelf_def rune_width_def)
    qed
  qed
qed


lemma IsSpace_RuneError: "\<not> IsSpace RuneError"
  by (simp add: IsSpace_def RuneError_def)

lemma IsSpace_ascii: "byte c < 0x80 \<Longrightarrow> IsSpace (byte c) = asciiSpace c"
  by (auto simp: IsSpace_def asciiSpace_def)

lemma asciiSpace_lt: "asciiSpace c \<Longrightarrow> byte c < 0x80"
  by (auto simp: asciiSpace_def)

lemma asciiSpace_RuneStart: "asciiSpace c \<Longrightarrow> RuneStart c"
  by (auto simp: asciiSpace_def RuneStart_def)

lemma Decode_Nil: "DecodeRuneInString [] = (RuneError, 0)"
  by (simp add: DecodeRuneInString_def)

lemma Decode_ascii: "byte c < 0x80 \<Longrightarrow> DecodeRuneInString (c # t) = (byte c, 1)"
  by (simp add: Decode_Cons)

lemma Decode_width_le: "snd (DecodeRuneInString s) \<le> length s"
  by (cases s) (auto simp: Decode_Nil Decode_Cons Let_def split: list.splits)

lemma Decode_no_cont:
  "t = [] \<or> RuneStart (hd t) \<Longrightarrow> byte c \<ge> 0x80 \<Longrightarrow> DecodeRuneInString (c # t) = (RuneError, 1)"
  by (cases t) (auto simp: Decode_Cons Let_def RuneStart_def accept_lo_def accept_hi_def)

lemma Decode_not_start:
  "\<not> RuneStart c \<Longrightarrow> DecodeRuneInString (c # t) = (RuneError, 1)"
  by (auto simp: Decode_Cons Let_def RuneStart_def)

lemma Decode_append:
  assumes "fst (DecodeRuneInString x) \<noteq> RuneError \<or> 2 \<le> snd (DecodeRuneInString x)"
  shows "DecodeRuneInString (x @ y) = DecodeRuneInString x"
proof (cases x)
  case Nil
  with assms show ?thesis by (simp add: Decode_Nil)
next
  case (Cons c t)
  note c = Cons
  show ?thesis
  proof (cases "byte c < 0x80")
    case True
    then show ?thesis unfolding c by (simp add: Decode_ascii)
  next
    case hi: False
    show ?thesis
    proof (cases t)
      case Nil
      with assms hi show ?thesis unfolding c by (simp add: Decode_Cons Let_def split: if_splits)
    next
      case t: (Cons c1 t1)
      show ?thesis
      proof (cases t1)
        case Nil
        with assms hi show ?thesis unfolding c t
          by (simp add: Decode_Cons Let_def split: if_splits)
      next
        case t1: (Cons c2 t2)
        show ?thesis
        proof (cases t2)
          case Nil
          with assms hi show ?thesis unfolding c t t1
            by (simp add: Decode_Cons Let_def split: if_splits)
        next
          case (Cons c3 t3)
          with assms hi show ?thesis unfolding c t t1
            by (simp add: Decode_Cons Let_def split: if_splits)
        qed
      qed
    qed
  qed
qed

lemma Decode_space_start:
  assumes "IsSpace (fst (DecodeRuneInString s))"
  shows "s \<noteq> []" and "RuneStart (hd s)"
proof -
  show "s \<noteq> []" using assms by (auto simp: Decode_Nil IsSpace_RuneError)
  then obtain c t where s: "s = c # t" by (cases s) auto
  show "RuneStart (hd s)"
  proof (rule ccontr)
    assume "\<not> RuneStart (hd s)"
    then have "DecodeRuneInString s = (RuneError, 1)" unfolding s by (simp add: Decode_not_start)
    with assms show False by (simp add: IsSpace_RuneError)
  qed
qed

lemma TLF_Nil: "TrimLeftFunc [] = []"
  by (simp add: TrimLeftFunc.simps)

lemma TLF_step:
  "s \<noteq> [] \<Longrightarrow> TrimLeftFunc s =
     (if \<not> IsSpace (fst (DecodeRuneInString s)) then s
      else TrimLeftFunc (drop (snd (DecodeRuneInString s)) s))"
  by (subst TrimLeftFunc.simps) (simp add: split_beta)

lemma TLF_not_space: "\<not> IsSpace (fst (DecodeRuneInString (TrimLeftFunc s)))"
proof (induction s rule: TrimLeftFunc.induct)
  case (1 s)
  show ?case
  proof (cases "s = []")
    case True
    then show ?thesis by (simp add: TLF_Nil Decode_Nil IsSpace_RuneError)
  next
    case False
    show ?thesis
    proof (cases "IsSpace (fst (DecodeRuneInString s))")
      case True
      with False 1 [of "DecodeRuneInString s" "fst (DecodeRuneInString s)" "snd (DecodeRuneInString s)"]
      show ?thesis by (simp add: TLF_step)
    next
      case False
      with \<open>s \<noteq> []\<close> show ?thesis by (simp add: TLF_step)
    qed
  qed
qed

lemma TLF_id: "\<not> IsSpace (fst (DecodeRuneInString s)) \<Longrightarrow> TrimLeftFunc s = s"
  by (cases "s = []") (simp_all add: TLF_Nil TLF_step)

lemma TLF_suffix: "suffix (TrimLeftFunc s) s"
proof (induction s rule: TrimLeftFunc.induct)
  case (1 s)
  show ?case
  proof (cases "s = []")
    case True
    then show ?thesis by (simp add: TLF_Nil)
  next
    case False
    show ?thesis
    proof (cases "IsSpace (fst (DecodeRuneInString s))")
      case True
      with False 1 [of "DecodeRuneInString s" "fst (DecodeRuneInString s)" "snd (DecodeRuneInString s)"]
      have "suffix (TrimLeftFunc s) (drop (snd (DecodeRuneInString s)) s)"
        by (simp add: TLF_step)
      then show ?thesis using suffix_drop suffix_order.trans by blast
    next
      case False
      with \<open>s \<noteq> []\<close> show ?thesis by (simp add: TLF_step)
    qed
  qed
qed

lemma TLF_ascii: "asciiSpace c \<Longrightarrow> TrimLeftFunc (c # t) = TrimLeftFunc t"
  by (simp add: TLF_step Decode_ascii asciiSpace_lt IsSpace_ascii)

lemma TLF_dropWhile: "TrimLeftFunc (dropWhile asciiSpace s) = TrimLeftFunc s"
  by (induction s) (simp_all add: TLF_ascii)

lemma DL_Nil: "DecodeLastRuneInString [] = (RuneError, 0)"
  by (simp add: DecodeLastRuneInString_def)

lemma DL_ascii: "byte c < 0x80 \<Longrightarrow> DecodeLastRuneInString (s @ [c]) = (byte c, 1)"
  by (simp add: DecodeLastRuneInString_def RuneSelf_def)

lemma DL_eq:
  assumes "s \<noteq> []" "\<not> byte (last s) < 0x80"
  shows "DecodeLastRuneInString s =
     (let k = nat (last_rune_start s); d = DecodeRuneInString (drop k s) in
      if k + snd d \<noteq> length s then (RuneError, 1) else d)"
proof -
  have "nat (int (length s) - 1) = length s - Suc 0" by arith
  then have "s ! nat (int (length s) - 1) = last s"
    using assms(1) by (simp add: last_conv_nth)
  moreover have "0 \<le> last_rune_start s" "last_rune_start s < int (length s)"
    using last_rune_start_bounds [OF assms(1)] by auto
  ultimately show ?thesis
    using assms
    apply (simp add: DecodeLastRuneInString_def Let_def split_beta RuneSelf_def)
    apply (auto simp: prod_eq_iff)
    done
qed

lemma DL_cases:
  assumes "s \<noteq> []"
  obtains (ascii) "byte (last s) < 0x80" "DecodeLastRuneInString s = (byte (last s), 1)"
  | (invalid) "\<not> byte (last s) < 0x80" "DecodeLastRuneInString s = (RuneError, 1)"
  | (rune) k where "\<not> byte (last s) < 0x80" "k < length s"
      "DecodeLastRuneInString s = DecodeRuneInString (drop k s)"
      "k + snd (DecodeRuneInString (drop k s)) = length s"
proof (cases "byte (last s) < 0x80")
  case True
  from assms obtain u c where s: "s = u @ [c]" by (metis rev_exhaust)
  with True have "DecodeLastRuneInString s = (byte (last s), 1)" by (simp add: DL_ascii)
  with True show ?thesis by (rule ascii)
next
  case False
  define k where "k = nat (last_rune_start s)"
  have k: "k < length s" using last_rune_start_bounds [OF assms] by (simp add: k_def)
  show ?thesis
  proof (cases "k + snd (DecodeRuneInString (drop k s)) = length s")
    case True
    with False assms have "DecodeLastRuneInString s = DecodeRuneInString (drop k s)"
      by (simp add: DL_eq Let_def k_def)
    from rune [OF False k this True] show ?thesis .
  next
    case ne: False
    with False assms have "DecodeLastRuneInString s = (RuneError, 1)"
      by (simp add: DL_eq Let_def k_def)
    with False show ?thesis by (rule invalid)
  qed
qed

lemma DL_width_le: "snd (DecodeLastRuneInString s) \<le> length s"
proof (cases "s = []")
  case True
  then show ?thesis by (simp add: DL_Nil)
next
  case False
  then have "0 < length s" by simp
  from False show ?thesis
    by (cases s rule: DL_cases) (use False in \<open>auto simp: Suc_le_eq\<close>)
qed

lemma DL_space_start:
  assumes "IsSpace (fst (DecodeLastRuneInString s))"
  shows "s \<noteq> []" and "RuneStart (s ! (length s - snd (DecodeLastRuneInString s)))"
proof -
  show ne: "s \<noteq> []" using assms by (auto simp: DL_Nil IsSpace_RuneError)
  from ne show "RuneStart (s ! (length s - snd (DecodeLastRuneInString s)))"
  proof (cases s rule: DL_cases)
    case ascii
    then show ?thesis using ne by (simp add: last_conv_nth RuneStart_def)
  next
    case invalid
    with assms show ?thesis by (simp add: IsSpace_RuneError)
  next
    case (rune k)
    with assms have "RuneStart (hd (drop k s))" by (simp add: Decode_space_start)
    moreover have "length s - snd (DecodeLastRuneInString s) = k" using rune by simp
    ultimately show ?thesis using rune(2) by (simp add: hd_drop_conv_nth)
  qed
qed

lemma DL_forward:
  assumes "s \<noteq> []" "rest = [] \<or> RuneStart (hd rest)"
  defines "w \<equiv> snd (DecodeLastRuneInString s)"
  defines "i \<equiv> length s - w"
  shows "(if byte (s ! i) \<ge> 0x80 then snd (DecodeRuneInString (drop i s @ rest)) else 1) = w"
  using assms(1)
proof (cases s rule: DL_cases)
  case ascii
  then show ?thesis using assms(1) by (simp add: w_def i_def last_conv_nth)
next
  case invalid
  then have w: "w = 1" by (simp add: w_def)
  from assms(1) obtain u c where "s = u @ [c]" by (metis rev_exhaust)
  then have "drop i s = [last s]" unfolding i_def w by simp
  moreover have "s ! i = last s" using assms(1) unfolding i_def w by (simp add: last_conv_nth)
  ultimately show ?thesis using invalid assms(2) w by (simp add: Decode_no_cont)
next
  case (rune k)
  then have ik: "i = k" by (simp add: i_def w_def)
  define u where "u = drop k s"
  have u: "u \<noteq> []" using rune(2) by (simp add: u_def)
  have wu: "snd (DecodeRuneInString u) = w" "length u = w"
    using rune by (auto simp: w_def u_def)
  have hd: "s ! k = hd u" using rune(2) by (simp add: u_def hd_drop_conv_nth)
  have "(if byte (hd u) \<ge> 0x80 then snd (DecodeRuneInString (u @ rest)) else 1) = w"
  proof (cases "2 \<le> w")
    case True
    then have "DecodeRuneInString (u @ rest) = DecodeRuneInString u"
      by (simp add: Decode_append wu(1))
    moreover have "128 \<le> byte (hd u)"
    proof (rule ccontr)
      assume "\<not> 128 \<le> byte (hd u)"
      then have "DecodeRuneInString u = (byte (hd u), 1)"
        using u by (cases u) (simp_all add: Decode_ascii)
      with True wu(1) show False by simp
    qed
    ultimately show ?thesis by (simp add: wu(1))
  next
    case False
    moreover have "1 \<le> w" using DecodeRuneInString_width [OF u] by (simp add: wu(1))
    ultimately have w1: "w = 1" by simp
    with wu(2) obtain c where c: "u = [c]" by (cases u) auto
    show ?thesis
    proof (cases "byte c \<ge> 0x80")
      case True
      with assms(2) show ?thesis unfolding c w1 by (simp add: Decode_no_cont)
    next
      case False
      then show ?thesis unfolding c w1 by simp
    qed
  qed
  then show ?thesis unfolding ik hd u_def [symmetric] .
qed

lemma LIF_Nil: "lastIndexFunc [] = -1"
  by (simp add: lastIndexFunc.simps)

lemma LIF_step:
  "s \<noteq> [] \<Longrightarrow> lastIndexFunc s =
     (if \<not> IsSpace (fst (DecodeLastRuneInString s))
      then int (length s) - int (snd (DecodeLastRuneInString s))
      else lastIndexFunc (take (length s - snd (DecodeLastRuneInString s)) s))"
  by (subst lastIndexFunc.simps) (simp add: split_beta Let_def nat_diff_distrib')

lemma TRF_rune_end: "TrimRightFunc s = take (nat (rune_end s (lastIndexFunc s))) s"
  by (simp add: TrimRightFunc_def rune_end_def Let_def)

lemma LIF_ge: "- 1 \<le> lastIndexFunc s"
proof (induction s rule: lastIndexFunc.induct)
  case (1 s)
  show ?case
  proof (cases "s = []")
    case True
    then show ?thesis by (simp add: LIF_Nil)
  next
    case False
    show ?thesis
    proof (cases "IsSpace (fst (DecodeLastRuneInString s))")
      case True
      with False
        1 [of "DecodeLastRuneInString s" "fst (DecodeLastRuneInString s)"
              "snd (DecodeLastRuneInString s)" "int (length s) - int (snd (DecodeLastRuneInString s))"]
      show ?thesis by (simp add: LIF_step nat_diff_distrib')
    next
      case False
      with \<open>s \<noteq> []\<close> DL_width_le [of s] show ?thesis by (simp add: LIF_step)
    qed
  qed
qed

lemma LIF_end:
  "0 \<le> lastIndexFunc s \<Longrightarrow>
   \<exists>e. 0 < e \<and> e \<le> length s \<and> \<not> IsSpace (fst (DecodeLastRuneInString (take e s)))
     \<and> (\<forall>rest. rest = [] \<or> RuneStart (hd rest) \<longrightarrow>
           rune_end (s @ rest) (lastIndexFunc s) = int e)"
proof (induction s rule: lastIndexFunc.induct)
  case (1 s)
  from "1.prems" have ne: "s \<noteq> []" by (auto simp: LIF_Nil)
  define w where "w = snd (DecodeLastRuneInString s)"
  have w: "1 \<le> w" "w \<le> length s"
    using DecodeLastRuneInString_width [OF ne] DL_width_le [of s] by (auto simp: w_def)
  show ?case
  proof (cases "IsSpace (fst (DecodeLastRuneInString s))")
    case False
    then have i: "lastIndexFunc s = int (length s) - int w"
      using ne by (simp add: LIF_step w_def)
    have "rune_end (s @ rest) (lastIndexFunc s) = int (length s)"
      if "rest = [] \<or> RuneStart (hd rest)" for rest
    proof -
      have n: "nat (int (length s) - int w) = length s - w" using w by simp
      have lt: "length s - w < length s" using w ne by simp
      from DL_forward [OF ne that]
      have "(if 128 \<le> byte (s ! (length s - w))
             then snd (DecodeRuneInString (drop (length s - w) s @ rest)) else 1) = w"
        unfolding w_def .
      then show ?thesis
        using w lt unfolding i rune_end_def n
        by (auto simp: nth_append RuneSelf_def split: if_splits)
    qed
    with False ne show ?thesis
      by (intro exI [of _ "length s"]) simp
  next
    case True
    define p where "p = take (length s - w) s"
    have lp: "length p = length s - w" using w by (simp add: p_def)
    have i: "lastIndexFunc s = lastIndexFunc p"
      using ne True by (simp add: LIF_step w_def p_def)
    have nn: "\<not> \<not> IsSpace (fst (DecodeLastRuneInString s))" using True by simp
    have n: "nat (int (length s) - int (snd (DecodeLastRuneInString s))) = length s - w"
      using w by (simp add: w_def)
    note ih = "1.IH" [OF ne refl prod.collapse refl nn, unfolded n p_def [symmetric]]
    from "1.prems" have "0 \<le> lastIndexFunc p" by (simp add: i)
    from ih [OF this] obtain e where e: "0 < e" "e \<le> length p"
      "\<not> IsSpace (fst (DecodeLastRuneInString (take e p)))"
      "\<And>rest. rest = [] \<or> RuneStart (hd rest) \<Longrightarrow> rune_end (p @ rest) (lastIndexFunc p) = int e"
      by blast
    have start: "RuneStart (s ! (length s - w))"
      using DL_space_start(2) [OF True] by (simp add: w_def)
    have "rune_end (s @ rest) (lastIndexFunc s) = int e"
      if "rest = [] \<or> RuneStart (hd rest)" for rest
    proof -
      have eq: "p @ (drop (length s - w) s @ rest) = s @ rest"
        by (simp only: append_assoc [symmetric] append_take_drop_id p_def)
      have lt: "length s - w < length s" using w ne by simp
      then have "hd (drop (length s - w) s @ rest) = s ! (length s - w)"
        by (simp add: hd_append hd_drop_conv_nth)
      with start have "RuneStart (hd (drop (length s - w) s @ rest))" by simp
      then have "rune_end (p @ (drop (length s - w) s @ rest)) (lastIndexFunc p) = int e"
        by (intro e(4)) simp
      then show ?thesis unfolding i eq .
    qed
    moreover have "take e p = take e s" using e(2) lp by (simp add: p_def min_def)
    moreover have "e \<le> length s" using e(2) lp by simp
    ultimately show ?thesis using e(1,3) by (intro exI [of _ e]) simp
  qed
qed

lemma rune_end_neg: "rune_end s (- 1) = 0"
  by (simp add: rune_end_def)

lemma rune_end_last:
  assumes ne: "s \<noteq> []" and rest: "rest = [] \<or> RuneStart (hd rest)"
  shows "rune_end (s @ rest) (int (length s) - int (snd (DecodeLastRuneInString s))) = int (length s)"
proof -
  define w where "w = snd (DecodeLastRuneInString s)"
  have w: "1 \<le> w" "w \<le> length s"
    using DecodeLastRuneInString_width [OF ne] DL_width_le [of s] by (auto simp: w_def)
  have n: "nat (int (length s) - int w) = length s - w" using w by simp
  have lt: "length s - w < length s" using w ne by simp
  from DL_forward [OF ne rest]
  have "(if 128 \<le> byte (s ! (length s - w))
         then snd (DecodeRuneInString (drop (length s - w) s @ rest)) else 1) = w"
    unfolding w_def .
  then show ?thesis
    using w lt unfolding rune_end_def n w_def [symmetric]
    by (auto simp: nth_append RuneSelf_def split: if_splits)
qed

lemma TRF_neg: "lastIndexFunc s < 0 \<Longrightarrow> TrimRightFunc s = []"
proof -
  assume "lastIndexFunc s < 0"
  with LIF_ge [of s] have "lastIndexFunc s = - 1" by simp
  then show ?thesis by (simp add: TRF_rune_end rune_end_neg)
qed

lemma TRF_take:
  "\<exists>e \<le> length s. TrimRightFunc s = take e s
      \<and> \<not> IsSpace (fst (DecodeLastRuneInString (take e s)))"
proof (cases "lastIndexFunc s < 0")
  case True
  then have "TrimRightFunc s = take 0 s" by (simp add: TRF_neg)
  then show ?thesis
    by (intro exI [of _ 0]) (simp add: DL_Nil IsSpace_RuneError)
next
  case False
  then have "0 \<le> lastIndexFunc s" by simp
  from LIF_end [OF this] obtain e where e: "0 < e" "e \<le> length s"
    "\<not> IsSpace (fst (DecodeLastRuneInString (take e s)))"
    "\<And>rest. rest = [] \<or> RuneStart (hd rest) \<Longrightarrow> rune_end (s @ rest) (lastIndexFunc s) = int e"
    by blast
  from e(4) [of "[]"] have "TrimRightFunc s = take e s" by (simp add: TRF_rune_end)
  with e show ?thesis by blast
qed

lemma TRF_not_space: "\<not> IsSpace (fst (DecodeLastRuneInString (TrimRightFunc s)))"
  using TRF_take [of s] by auto

lemma TRF_prefix: "prefix (TrimRightFunc s) s"
  by (simp add: TrimRightFunc_def Let_def take_is_prefix)

lemma TRF_Nil: "TrimRightFunc [] = []"
  by (simp add: TrimRightFunc_def Let_def)

lemma TRF_id:
  assumes "\<not> IsSpace (fst (DecodeLastRuneInString s))"
  shows "TrimRightFunc s = s"
proof (cases "s = []")
  case True
  then show ?thesis by (simp add: TRF_Nil)
next
  case False
  with assms have "lastIndexFunc s = int (length s) - int (snd (DecodeLastRuneInString s))"
    by (simp add: LIF_step)
  with rune_end_last [OF False, of "[]"] show ?thesis by (simp add: TRF_rune_end)
qed

lemma LIF_snoc_ascii: "asciiSpace c \<Longrightarrow> lastIndexFunc (s @ [c]) = lastIndexFunc s"
  by (simp add: LIF_step DL_ascii asciiSpace_lt IsSpace_ascii)

lemma TRF_snoc_ascii:
  assumes "asciiSpace c"
  shows "TrimRightFunc (s @ [c]) = TrimRightFunc s"
proof (cases "lastIndexFunc s < 0")
  case True
  then show ?thesis using assms by (simp add: TRF_neg LIF_snoc_ascii)
next
  case False
  then have "0 \<le> lastIndexFunc s" by simp
  from LIF_end [OF this] obtain e where e: "0 < e" "e \<le> length s"
    "\<And>rest. rest = [] \<or> RuneStart (hd rest) \<Longrightarrow> rune_end (s @ rest) (lastIndexFunc s) = int e"
    by blast
  from e(3) [of "[]"] have "TrimRightFunc s = take e s" by (simp add: TRF_rune_end)
  moreover from e(3) [of "[c]"] assms have "TrimRightFunc (s @ [c]) = take e (s @ [c])"
    by (simp add: TRF_rune_end LIF_snoc_ascii asciiSpace_RuneStart)
  ultimately show ?thesis using e(2) by simp
qed

lemma TRF_append_ascii: "\<forall>c \<in> set m. asciiSpace c \<Longrightarrow> TrimRightFunc (s @ m) = TrimRightFunc s"
proof (induction m rule: rev_induct)
  case Nil
  then show ?case by simp
next
  case (snoc c m)
  then have "asciiSpace c" and "TrimRightFunc (s @ m) = TrimRightFunc s" by simp_all
  then have "TrimRightFunc ((s @ m) @ [c]) = TrimRightFunc s"
    by (simp only: TRF_snoc_ascii)
  then show ?case by simp
qed

lemma Decode_take_space:
  assumes "IsSpace (fst (DecodeRuneInString (take k y)))"
  shows "IsSpace (fst (DecodeRuneInString y))"
proof -
  from assms have "fst (DecodeRuneInString (take k y)) \<noteq> RuneError"
    using IsSpace_RuneError by auto
  then have "DecodeRuneInString (take k y @ drop k y) = DecodeRuneInString (take k y)"
    by (intro Decode_append) simp
  with assms show ?thesis by simp
qed

lemma TrimFunc_not_space:
  "\<not> IsSpace (fst (DecodeRuneInString (TrimFunc s)))"
  "\<not> IsSpace (fst (DecodeLastRuneInString (TrimFunc s)))"
proof -
  obtain e where "TrimFunc s = take e (TrimLeftFunc s)"
    using TRF_take [of "TrimLeftFunc s"] by (auto simp: TrimFunc_def)
  then show "\<not> IsSpace (fst (DecodeRuneInString (TrimFunc s)))"
    using Decode_take_space [of e "TrimLeftFunc s"] TLF_not_space [of s] by auto
  show "\<not> IsSpace (fst (DecodeLastRuneInString (TrimFunc s)))"
    by (simp add: TrimFunc_def TRF_not_space)
qed

lemma TrimFunc_id:
  "\<not> IsSpace (fst (DecodeRuneInString s)) \<Longrightarrow> \<not> IsSpace (fst (DecodeLastRuneInString s))
     \<Longrightarrow> TrimFunc s = s"
  by (simp add: TrimFunc_def TLF_id TRF_id)


lemma TrimSpace_TrimFunc: "TrimSpace s = TrimFunc s"
proof -
  define s1 where "s1 = dropWhile asciiSpace s"
  define s2 where "s2 = rev (dropWhile asciiSpace (rev s1))"
  have tf: "TrimFunc s = TrimFunc s1"
    by (simp add: TrimFunc_def s1_def TLF_dropWhile)
  show ?thesis
  proof (cases "s1 \<noteq> [] \<and> byte (hd s1) \<ge> RuneSelf")
    case True
    then show ?thesis by (simp add: TrimSpace_def s1_def [symmetric] tf)
  next
    case False
    have hd1: "s1 \<noteq> [] \<Longrightarrow> \<not> asciiSpace (hd s1)"
      unfolding s1_def by (rule hd_dropWhile)
    have "\<not> IsSpace (fst (DecodeRuneInString s1))"
    proof (cases s1)
      case Nil
      then show ?thesis by (simp add: Decode_Nil IsSpace_RuneError)
    next
      case (Cons c t)
      with False hd1 show ?thesis by (simp add: RuneSelf_def Decode_ascii IsSpace_ascii)
    qed
    then have l: "TrimLeftFunc s1 = s1" by (rule TLF_id)
    have "s1 = s2 @ rev (takeWhile asciiSpace (rev s1))"
      unfolding s2_def by (metis rev_append rev_rev_ident takeWhile_dropWhile_id)
    moreover have "\<forall>c \<in> set (rev (takeWhile asciiSpace (rev s1))). asciiSpace c"
      by (auto dest: set_takeWhileD)
    ultimately have r: "TrimRightFunc s1 = TrimRightFunc s2"
      by (metis TRF_append_ascii)
    have ts: "TrimSpace s = (if s2 \<noteq> [] \<and> byte (last s2) \<ge> RuneSelf then TrimRightFunc s2 else s2)"
      using False by (auto simp: TrimSpace_def s1_def [symmetric] s2_def [symmetric] Let_def)
    have tf2: "TrimFunc s = TrimRightFunc s2"
      unfolding tf by (simp add: TrimFunc_def l r)
    show ?thesis
    proof (cases "s2 \<noteq> [] \<and> byte (last s2) \<ge> RuneSelf")
      case True
      then show ?thesis by (simp add: ts tf2)
    next
      case nr: False
      have last2: "s2 \<noteq> [] \<Longrightarrow> \<not> asciiSpace (last s2)"
        unfolding s2_def by (simp add: last_rev hd_dropWhile)
      have "\<not> IsSpace (fst (DecodeLastRuneInString s2))"
      proof (cases s2 rule: rev_cases)
        case Nil
        then show ?thesis by (simp add: DL_Nil IsSpace_RuneError)
      next
        case (snoc u c)
        with nr last2 show ?thesis by (simp add: RuneSelf_def DL_ascii IsSpace_ascii)
      qed
      then have "TrimRightFunc s2 = s2" by (rule TRF_id)
      with nr show ?thesis by (simp add: ts tf2)
    qed
  qed
qed


lemma TrimSpace_infix: "\<exists>a b. s = a @ TrimSpace s @ b"
proof -
  obtain a where a: "s = a @ TrimLeftFunc s" using TLF_suffix [of s] by (auto simp: suffix_def)
  obtain b where b: "TrimLeftFunc s = TrimSpace s @ b"
    using TRF_prefix [of "TrimLeftFunc s"] by (auto simp: prefix_def TrimSpace_TrimFunc TrimFunc_def)
  from a b show ?thesis by metis
qed

lemma TrimSpace_id:
  assumes "s \<noteq> [] \<Longrightarrow> byte (hd s) < 0x80 \<and> \<not> asciiSpace (hd s) \<and>
                        byte (last s) < 0x80 \<and> \<not> asciiSpace (last s)"
  shows "TrimSpace s = s"
proof (cases "s = []")
  case True
  then show ?thesis by (simp add: TrimSpace_TrimFunc TrimFunc_def TLF_Nil TRF_Nil)
next
  case False
  with assms have a: "byte (hd s) < 0x80" "\<not> asciiSpace (hd s)"
    "byte (last s) < 0x80" "\<not> asciiSpace (last s)" by auto
  from False obtain c t where s: "s = c # t" by (cases s) auto
  from False obtain u d where s': "s = u @ [d]" by (cases s rule: rev_cases) auto
  have "\<not> IsSpace (fst (DecodeRuneInString s))"
    using a(1,2) unfolding s by (simp add: Decode_ascii IsSpace_ascii)
  moreover have "\<not> IsSpace (fst (DecodeLastRuneInString s))"
    using a(3,4) unfolding s' by (simp add: DL_ascii IsSpace_ascii)
  ultimately show ?thesis by (simp add: TrimSpace_TrimFunc TrimFunc_id)
qed

subsection \<open>White space next to ASCII text\<close>




lemma TRF_space_step:
  assumes "IsSpace (fst (DecodeLastRuneInString q))"
  shows "TrimRightFunc q = TrimRightFunc (take (length q - snd (DecodeLastRuneInString q)) q)"
proof -
  define w where "w = snd (DecodeLastRuneInString q)"
  define p where "p = take (length q - w) q"
  have ne: "q \<noteq> []" using assms by (rule DL_space_start(1))
  have w: "1 \<le> w" "w \<le> length q"
    using DecodeLastRuneInString_width [OF ne] DL_width_le [of q] by (auto simp: w_def)
  have lif: "lastIndexFunc q = lastIndexFunc p"
    using ne assms by (simp add: LIF_step w_def p_def)
  show ?thesis unfolding w_def [symmetric] p_def [symmetric]
  proof (cases "lastIndexFunc p < 0")
    case True
    then show "TrimRightFunc q = TrimRightFunc p" by (simp add: TRF_neg lif)
  next
    case False
    then have "0 \<le> lastIndexFunc p" by simp
    from LIF_end [OF this] obtain e where e: "e \<le> length p"
      "\<And>rest. rest = [] \<or> RuneStart (hd rest) \<Longrightarrow> rune_end (p @ rest) (lastIndexFunc p) = int e"
      by blast
    have lt: "length q - w < length q" using w ne by simp
    have q: "p @ drop (length q - w) q = q" by (simp add: p_def)
    have "RuneStart (hd (drop (length q - w) q))"
      using DL_space_start(2) [OF assms] lt by (simp add: hd_drop_conv_nth w_def)
    then have "rune_end (p @ drop (length q - w) q) (lastIndexFunc p) = int e"
      by (intro e(2)) simp
    then have "TrimRightFunc q = take e q" by (simp add: TRF_rune_end lif q)
    moreover from e(2) [of "[]"] have "TrimRightFunc p = take e p" by (simp add: TRF_rune_end)
    moreover have "length p = length q - w" using w by (simp add: p_def)
    with e(1) have "take e p = take e q" by (simp add: p_def min_def)
    ultimately show "TrimRightFunc q = TrimRightFunc p" by simp
  qed
qed



subsection \<open>Prefixes and suffixes\<close>

lemma HasPrefix_iff_prefix: "HasPrefix s p \<longleftrightarrow> prefix p s"
proof
  assume "HasPrefix s p"
  then have "take (length p) s = p" by (simp add: HasPrefix_def)
  then show "prefix p s" by (metis take_is_prefix)
next
  assume "prefix p s"
  then show "HasPrefix s p" by (auto simp: prefix_def HasPrefix_def)
qed






lemma HasSuffix_iff_suffix: "HasSuffix s p \<longleftrightarrow> suffix p s"
proof
  assume "HasSuffix s p"
  then have "drop (length s - length p) s = p" by (simp add: HasSuffix_def)
  then show "suffix p s" by (metis suffix_drop)
next
  assume "suffix p s"
  then show "HasSuffix s p" by (auto simp: suffix_def HasSuffix_def)
qed

lemma TrimPrefix_decompose:
  "s = (if HasPrefix s p then p else []) @ TrimPrefix s p"
  by (auto simp: TrimPrefix_def HasPrefix_iff_prefix prefix_def)

lemma TrimSuffix_decompose:
  "s = TrimSuffix s p @ (if HasSuffix s p then p else [])"
  by (auto simp: TrimSuffix_def HasSuffix_iff_suffix suffix_def)

lemma TrimSpace_not_space:
  "\<not> IsSpace (fst (DecodeRuneInString (TrimSpace s)))"
  "\<not> IsSpace (fst (DecodeLastRuneInString (TrimSpace s)))"
  by (simp_all add: TrimSpace_TrimFunc TrimFunc_not_space)

subsection \<open>The white-space characters\<close>

lemma char_eq_char_of: "c = char_of (n::nat) \<longleftrightarrow> byte c = n mod 256"
  using char_of_eq_iff [of n c] by (auto simp: take_bit_eq_mod)

lemma white_space_chars_encode:
  "white_space_chars = map utf8_encode white_space_code_points"
  by (simp add: white_space_chars_def white_space_code_points_def utf8_encode_def
      char_eq_char_of)

lemma white_space_chars_facts:
  "list_all (\<lambda>e. e \<noteq> [] \<and> length e \<le> 3 \<and> RuneStart (hd e) \<and> list_all (\<lambda>c. \<not> RuneStart c) (tl e)
      \<and> IsSpace (fst (DecodeRuneInString e)) \<and> snd (DecodeRuneInString e) = length e
      \<and> (if length e = 1 then byte (hd e) < 0x80 else 0x80 \<le> byte (last e))) white_space_chars"
  by (simp add: white_space_chars_def RuneStart_def Decode_Cons accept_lo_def accept_hi_def
      IsSpace_def)

lemma wsc:
  assumes "e \<in> set white_space_chars"
  shows "e \<noteq> []" and "length e \<le> 3" and "RuneStart (hd e)"
    and "\<forall>c \<in> set (tl e). \<not> RuneStart c"
    and "IsSpace (fst (DecodeRuneInString e))" and "snd (DecodeRuneInString e) = length e"
    and "length e = 1 \<Longrightarrow> byte (hd e) < 0x80" and "length e \<noteq> 1 \<Longrightarrow> 0x80 \<le> byte (last e)"
proof -
  from white_space_chars_facts assms
  have *: "e \<noteq> [] \<and> length e \<le> 3 \<and> RuneStart (hd e) \<and> list_all (\<lambda>c. \<not> RuneStart c) (tl e)
      \<and> IsSpace (fst (DecodeRuneInString e)) \<and> snd (DecodeRuneInString e) = length e
      \<and> (if length e = 1 then byte (hd e) < 0x80 else 0x80 \<le> byte (last e))"
    unfolding list_all_iff [of _ white_space_chars] by (rule bspec)
  from * show "e \<noteq> []" and "length e \<le> 3" and "RuneStart (hd e)"
    and "IsSpace (fst (DecodeRuneInString e))" and "snd (DecodeRuneInString e) = length e"
    by blast+
  from * show "\<forall>c \<in> set (tl e). \<not> RuneStart c" by (simp only: list_all_iff) blast
  from * show "length e = 1 \<Longrightarrow> byte (hd e) < 0x80" by (simp only: if_True) 
  from * show "length e \<noteq> 1 \<Longrightarrow> 0x80 \<le> byte (last e)" by (simp only: if_False) 
qed

lemma IsSpace_iff: "IsSpace r \<longleftrightarrow> r \<in> set white_space_code_points"
proof (cases "r \<le> 0xFF")
  case True
  then show ?thesis by (auto simp: IsSpace_def white_space_code_points_def)
next
  case False
  have "(0x2000 \<le> r \<and> r \<le> 0x200A) \<longleftrightarrow>
        r \<in> {0x2000, 0x2001, 0x2002, 0x2003, 0x2004, 0x2005, 0x2006, 0x2007, 0x2008, 0x2009, 0x200A}"
    by (simp only: insert_iff empty_iff) arith
  with False show ?thesis by (auto simp: IsSpace_def white_space_code_points_def)
qed

lemma div_mod_offset:
  fixes n k m :: nat
  assumes "k * m \<le> n" "n < k * m + m"
  shows "n div m = k" and "n mod m = n - k * m"
proof -
  define d where "d = n - k * m"
  have n: "n = d + k * m" and d: "d < m" using assms by (simp_all add: d_def)
  show "n div m = k" unfolding n using d by simp
  show "n mod m = n - k * m" unfolding n using d by simp
qed

lemma encode2:
  assumes "0xC2 \<le> s0" "s0 < 0xE0" "0x80 \<le> s1" "s1 \<le> 0xBF"
  defines "r \<equiv> (s0 mod 0x20) * 0x40 + s1 mod 0x40"
  shows "utf8_encode r = [char_of s0, char_of s1]"
proof -
  define a b where "a = s0 - 0xC0" and "b = s1 - 0x80"
  have ab: "s0 = 0xC0 + a" "2 \<le> a" "a < 0x20" "s1 = 0x80 + b" "b < 0x40"
    using assms(1-4) by (simp_all add: a_def b_def)
  have "s0 mod 0x20 = a" using div_mod_offset(2) [of 6 "0x20" s0] ab by simp
  moreover have "s1 mod 0x40 = b" using div_mod_offset(2) [of 2 "0x40" s1] ab by simp
  ultimately have r: "r = a * 0x40 + b" by (simp add: r_def)
  have "r div 0x40 = a" "r mod 0x40 = b"
    using div_mod_offset [of a "0x40" r] ab r by simp_all
  moreover have "0x80 \<le> r" "r < 0x800" using r ab by simp_all
  ultimately show ?thesis using ab by (simp add: utf8_encode_def)
qed

lemma encode3:
  assumes "0xE0 \<le> s0" "s0 < 0xF0" "accept_lo s0 \<le> s1" "s1 \<le> 0xBF" "0x80 \<le> s2" "s2 \<le> 0xBF"
  defines "r \<equiv> (s0 mod 0x10) * 0x1000 + (s1 mod 0x40) * 0x40 + s2 mod 0x40"
  shows "utf8_encode r = [char_of s0, char_of s1, char_of s2]"
proof -
  have s1: "0x80 \<le> s1" "s0 = 0xE0 \<Longrightarrow> 0xA0 \<le> s1"
    using assms(3) by (auto simp: accept_lo_def split: if_splits)
  define a b c where "a = s0 - 0xE0" and "b = s1 - 0x80" and "c = s2 - 0x80"
  have ab: "s0 = 0xE0 + a" "a < 0x10" "s1 = 0x80 + b" "b < 0x40" "s2 = 0x80 + c" "c < 0x40"
    "a = 0 \<Longrightarrow> 0x20 \<le> b"
    using assms(1,2,4-6) s1 by (simp_all add: a_def b_def c_def)
  have "s0 mod 0x10 = a" using div_mod_offset(2) [of 14 "0x10" s0] ab by simp
  moreover have "s1 mod 0x40 = b" using div_mod_offset(2) [of 2 "0x40" s1] ab by simp
  moreover have "s2 mod 0x40 = c" using div_mod_offset(2) [of 2 "0x40" s2] ab by simp
  ultimately have r: "r = a * 0x1000 + b * 0x40 + c" by (simp add: r_def)
  have "r div 0x1000 = a"
    using div_mod_offset(1) [of a "0x1000" r] ab r by simp
  moreover have d: "r div 0x40 = a * 0x40 + b" "r mod 0x40 = c"
    using div_mod_offset [of "a * 0x40 + b" "0x40" r] ab r by simp_all
  moreover have "(a * 0x40 + b) mod 0x40 = b"
    using div_mod_offset(2) [of a "0x40" "a * 0x40 + b"] ab by simp
  moreover have "0x800 \<le> r" "r < 0x10000" using r ab by (cases "a = 0"; simp)+
  ultimately show ?thesis using ab by (simp add: utf8_encode_def)
qed

lemma encode4:
  assumes "0xF0 \<le> s0" "s0 \<le> 0xF4" "accept_lo s0 \<le> s1" "s1 \<le> 0xBF" "0x80 \<le> s2" "s2 \<le> 0xBF"
    "0x80 \<le> s3" "s3 \<le> 0xBF"
  defines "r \<equiv> (s0 mod 0x08) * 0x40000 + (s1 mod 0x40) * 0x1000 + (s2 mod 0x40) * 0x40 + s3 mod 0x40"
  shows "utf8_encode r = [char_of s0, char_of s1, char_of s2, char_of s3]"
proof -
  have s1: "0x80 \<le> s1" "s0 = 0xF0 \<Longrightarrow> 0x90 \<le> s1"
    using assms(3) by (auto simp: accept_lo_def split: if_splits)
  define a b c d where "a = s0 - 0xF0" and "b = s1 - 0x80" and "c = s2 - 0x80" and "d = s3 - 0x80"
  have ab: "s0 = 0xF0 + a" "a < 0x08" "s1 = 0x80 + b" "b < 0x40" "s2 = 0x80 + c" "c < 0x40"
    "s3 = 0x80 + d" "d < 0x40" "a = 0 \<Longrightarrow> 0x10 \<le> b"
    using assms(1,2,4-8) s1 by (simp_all add: a_def b_def c_def d_def)
  have "s0 mod 0x08 = a" using div_mod_offset(2) [of 30 "0x08" s0] ab by simp
  moreover have "s1 mod 0x40 = b" using div_mod_offset(2) [of 2 "0x40" s1] ab by simp
  moreover have "s2 mod 0x40 = c" using div_mod_offset(2) [of 2 "0x40" s2] ab by simp
  moreover have "s3 mod 0x40 = d" using div_mod_offset(2) [of 2 "0x40" s3] ab by simp
  ultimately have r: "r = a * 0x40000 + b * 0x1000 + c * 0x40 + d" by (simp add: r_def)
  have "r div 0x40000 = a"
    using div_mod_offset(1) [of a "0x40000" r] ab r by simp
  moreover have "r div 0x1000 = a * 0x40 + b"
    using div_mod_offset(1) [of "a * 0x40 + b" "0x1000" r] ab r by simp
  moreover have "r div 0x40 = a * 0x1000 + b * 0x40 + c" "r mod 0x40 = d"
    using div_mod_offset [of "a * 0x1000 + b * 0x40 + c" "0x40" r] ab r by simp_all
  moreover have "(a * 0x40 + b) mod 0x40 = b"
    using div_mod_offset(2) [of a "0x40" "a * 0x40 + b"] ab by simp
  moreover have "(a * 0x1000 + b * 0x40 + c) mod 0x40 = c"
    using div_mod_offset(2) [of "a * 0x40 + b" "0x40" "a * 0x1000 + b * 0x40 + c"] ab by simp
  moreover have "0x10000 \<le> r" using r ab by (cases "a = 0"; simp)
  ultimately show ?thesis using ab by (simp add: utf8_encode_def)
qed

lemma accept_range: "0x80 \<le> accept_lo s0" "accept_hi s0 \<le> 0xBF"
  by (simp_all add: accept_lo_def accept_hi_def)

lemma Decode_encode:
  assumes "fst (DecodeRuneInString x) \<noteq> RuneError"
  shows "take (snd (DecodeRuneInString x)) x = utf8_encode (fst (DecodeRuneInString x))"
proof (cases x)
  case Nil
  with assms show ?thesis by (simp add: Decode_Nil)
next
  case x: (Cons c t)
  show ?thesis
  proof (cases "byte c < 0x80")
    case True
    then show ?thesis unfolding x by (simp add: Decode_ascii utf8_encode_def)
  next
    case hi: False
    have v: "0xC2 \<le> byte c" "byte c \<le> 0xF4"
      using assms hi unfolding x by (auto simp: Decode_Cons Let_def split: if_splits)
    show ?thesis
    proof (cases t)
      case Nil
      with assms hi show ?thesis unfolding x by (simp add: Decode_Cons Let_def split: if_splits)
    next
      case t: (Cons c1 t1)
      have a1: "accept_lo (byte c) \<le> byte c1" "byte c1 \<le> accept_hi (byte c)"
        using assms hi v unfolding x t by (auto simp: Decode_Cons Let_def split: if_splits)
      have b1: "0x80 \<le> byte c1" "byte c1 \<le> 0xBF"
        using a1 accept_range [of "byte c"] by linarith+
      show ?thesis
      proof (cases "byte c < 0xE0")
        case True
        with hi v a1 have "DecodeRuneInString x = ((byte c mod 0x20) * 0x40 + byte c1 mod 0x40, 2)"
          unfolding x t by (simp add: Decode_Cons Let_def)
        moreover have "utf8_encode ((byte c mod 0x20) * 0x40 + byte c1 mod 0x40)
            = [char_of (byte c), char_of (byte c1)]"
          using v(1) True b1 by (rule encode2)
        ultimately show ?thesis by (simp add: x t)
      next
        case w3: False
        show ?thesis
        proof (cases t1)
          case Nil
          with assms hi w3 show ?thesis unfolding x t
            by (simp add: Decode_Cons Let_def split: if_splits)
        next
          case t1: (Cons c2 t2)
          have b2: "0x80 \<le> byte c2" "byte c2 \<le> 0xBF"
            using assms hi v w3 unfolding x t t1
            by (auto simp: Decode_Cons Let_def split: if_splits)
          show ?thesis
          proof (cases "byte c < 0xF0")
            case True
            with hi v a1 b2 w3 have "DecodeRuneInString x =
                ((byte c mod 0x10) * 0x1000 + (byte c1 mod 0x40) * 0x40 + byte c2 mod 0x40, 3)"
              unfolding x t t1 by (simp add: Decode_Cons Let_def)
            moreover have "utf8_encode
                ((byte c mod 0x10) * 0x1000 + (byte c1 mod 0x40) * 0x40 + byte c2 mod 0x40)
                = [char_of (byte c), char_of (byte c1), char_of (byte c2)]"
              using w3 True a1(1) b1(2) b2 by (intro encode3) simp_all
            ultimately show ?thesis by (simp add: x t t1)
          next
            case w4: False
            show ?thesis
            proof (cases t2)
              case Nil
              with assms hi w3 w4 show ?thesis unfolding x t t1
                by (simp add: Decode_Cons Let_def split: if_splits)
            next
              case t2: (Cons c3 t3)
              have b3: "0x80 \<le> byte c3" "byte c3 \<le> 0xBF"
                using assms hi v w3 w4 unfolding x t t1 t2
                by (auto simp: Decode_Cons Let_def split: if_splits)
              from hi v a1 b2 b3 w3 w4 have "DecodeRuneInString x =
                  ((byte c mod 0x08) * 0x40000 + (byte c1 mod 0x40) * 0x1000
                     + (byte c2 mod 0x40) * 0x40 + byte c3 mod 0x40, 4)"
                unfolding x t t1 t2 by (simp add: Decode_Cons Let_def)
              moreover have "utf8_encode
                  ((byte c mod 0x08) * 0x40000 + (byte c1 mod 0x40) * 0x1000
                     + (byte c2 mod 0x40) * 0x40 + byte c3 mod 0x40)
                  = [char_of (byte c), char_of (byte c1), char_of (byte c2), char_of (byte c3)]"
                using w4 v(2) a1(1) b1(2) b2 b3 by (intro encode4) simp_all
              ultimately show ?thesis by (simp add: x t t1 t2)
            qed
          qed
        qed
      qed
    qed
  qed
qed

lemma starts_with_space_iff:
  "starts_with_space s \<longleftrightarrow> IsSpace (fst (DecodeRuneInString s))"
proof
  assume "starts_with_space s"
  then obtain e y where e: "e \<in> set white_space_chars" and s: "s = e @ y"
    by (auto simp: starts_with_space_def prefix_def)
  from wsc(5) [OF e] have "fst (DecodeRuneInString e) \<noteq> RuneError"
    using IsSpace_RuneError by auto
  then have "DecodeRuneInString (e @ y) = DecodeRuneInString e" by (intro Decode_append) simp
  with wsc(5) [OF e] show "IsSpace (fst (DecodeRuneInString s))" by (simp add: s)
next
  assume sp: "IsSpace (fst (DecodeRuneInString s))"
  then have "fst (DecodeRuneInString s) \<noteq> RuneError" using IsSpace_RuneError by auto
  then have "take (snd (DecodeRuneInString s)) s = utf8_encode (fst (DecodeRuneInString s))"
    by (rule Decode_encode)
  moreover have "utf8_encode (fst (DecodeRuneInString s)) \<in> set white_space_chars"
    using sp by (simp add: IsSpace_iff white_space_chars_encode)
  ultimately have "take (snd (DecodeRuneInString s)) s \<in> set white_space_chars" by simp
  then show "starts_with_space s"
    unfolding starts_with_space_def using take_is_prefix by blast
qed

lemma Decode_white_char:
  assumes "e \<in> set white_space_chars"
  shows "IsSpace (fst (DecodeRuneInString (e @ y)))" "snd (DecodeRuneInString (e @ y)) = length e"
proof -
  from wsc(5) [OF assms] have "fst (DecodeRuneInString e) \<noteq> RuneError"
    using IsSpace_RuneError by auto
  then have "DecodeRuneInString (e @ y) = DecodeRuneInString e" by (intro Decode_append) simp
  with wsc(5,6) [OF assms]
  show "IsSpace (fst (DecodeRuneInString (e @ y)))" "snd (DecodeRuneInString (e @ y)) = length e"
    by simp_all
qed

lemma Decode_space_char:
  assumes "IsSpace (fst (DecodeRuneInString s))"
  shows "take (snd (DecodeRuneInString s)) s \<in> set white_space_chars"
proof -
  from assms have "fst (DecodeRuneInString s) \<noteq> RuneError" using IsSpace_RuneError by auto
  then have "take (snd (DecodeRuneInString s)) s = utf8_encode (fst (DecodeRuneInString s))"
    by (rule Decode_encode)
  moreover have "utf8_encode (fst (DecodeRuneInString s)) \<in> set white_space_chars"
    using assms by (simp add: IsSpace_iff white_space_chars_encode)
  ultimately show ?thesis by simp
qed

lemma scan_back_found:
  assumes "low \<le> k" "0 \<le> k" "RuneStart (s ! nat k)"
  shows "k \<le> a \<Longrightarrow> (\<forall>j. k < j \<and> j \<le> a \<longrightarrow> \<not> RuneStart (s ! nat j)) \<Longrightarrow> scan_back s a low = k"
proof (induction "nat (a - k)" arbitrary: a)
  case 0
  then have "a = k" by simp
  with assms show ?case by (subst scan_back.simps) simp
next
  case (Suc n)
  then have a: "k < a" by linarith
  with Suc.prems have "\<not> RuneStart (s ! nat a)" by simp
  moreover have "scan_back s (a - 1) low = k"
    using Suc.hyps(2) Suc.prems a by (intro Suc.hyps(1)) auto
  ultimately show ?case using a assms(1) by (subst scan_back.simps) simp
qed

lemma DL_white_char:
  assumes e: "e \<in> set white_space_chars"
  shows "DecodeLastRuneInString (u @ e) = DecodeRuneInString e"
proof (cases "length e = 1")
  case True
  then obtain c where c: "e = [c]" by (cases e) auto
  with wsc(7) [OF e True] show ?thesis by (simp add: DL_ascii Decode_ascii)
next
  case False
  note facts = wsc [OF e]
  from False facts(1) have len: "2 \<le> length e" by (cases e) (auto simp: Suc_le_eq)
  define s where "s = u @ e"
  define k where "k = int (length u)"
  have ne: "s \<noteq> []" using facts(1) by (simp add: s_def)
  have last: "\<not> byte (last s) < 0x80" using facts(8) [OF False] facts(1) by (simp add: s_def)
  have "scan_back s (int (length s) - 1 - 1) (if int (length s) - UTFMax < 0 then 0 else int (length s) - UTFMax) = k"
  proof (rule scan_back_found)
    show "(if int (length s) - UTFMax < 0 then 0 else int (length s) - UTFMax) \<le> k"
      using facts(2) by (simp add: s_def k_def UTFMax_def)
    show "0 \<le> k" by (simp add: k_def)
    show "RuneStart (s ! nat k)" using facts(1,3) by (simp add: s_def k_def hd_conv_nth nth_append)
    show "k \<le> int (length s) - 1 - 1" using len by (simp add: s_def k_def)
    show "\<forall>j. k < j \<and> j \<le> int (length s) - 1 - 1 \<longrightarrow> \<not> RuneStart (s ! nat j)"
    proof (intro allI impI)
      fix j assume j: "k < j \<and> j \<le> int (length s) - 1 - 1"
      define i where "i = nat (j - k) - 1"
      have i: "nat j = length u + Suc i" "i < length (tl e)"
        using j by (auto simp: i_def k_def s_def)
      then have "s ! nat j = tl e ! i" using facts(1)
        by (simp add: s_def nth_append nth_tl)
      moreover have "tl e ! i \<in> set (tl e)" using i(2) by (rule nth_mem)
      ultimately show "\<not> RuneStart (s ! nat j)" using facts(4) by simp
    qed
  qed
  then have "last_rune_start s = k" by (simp add: last_rune_start_def Let_def k_def)
  then have "nat (last_rune_start s) = length u" by (simp add: k_def)
  with DL_eq [OF ne last] facts(6) show ?thesis unfolding s_def [symmetric]
    by (simp add: Let_def) (simp add: s_def)
qed

lemma DL_space_char:
  assumes "IsSpace (fst (DecodeLastRuneInString s))"
  shows "drop (length s - snd (DecodeLastRuneInString s)) s \<in> set white_space_chars"
proof -
  have ne: "s \<noteq> []" using assms by (rule DL_space_start(1))
  from ne show ?thesis
  proof (cases s rule: DL_cases)
    case ascii
    from ne obtain u c where s: "s = u @ [c]" by (metis rev_exhaust)
    have "DecodeRuneInString [c] = (byte c, 1)" using ascii(1) s by (simp add: Decode_ascii)
    with assms ascii(2) s have "IsSpace (fst (DecodeRuneInString [c]))" by simp
    from Decode_space_char [OF this] \<open>DecodeRuneInString [c] = (byte c, 1)\<close>
    show ?thesis using ascii(2) by (simp add: s)
  next
    case invalid
    with assms show ?thesis by (simp add: IsSpace_RuneError)
  next
    case (rune k)
    with assms have "IsSpace (fst (DecodeRuneInString (drop k s)))" by simp
    moreover have "length s - snd (DecodeRuneInString (drop k s)) = k" using rune(4) by simp
    ultimately show ?thesis using Decode_space_char [of "drop k s"] rune by simp
  qed
qed

lemma ends_with_space_iff:
  "ends_with_space s \<longleftrightarrow> IsSpace (fst (DecodeLastRuneInString s))"
proof
  assume "ends_with_space s"
  then obtain e u where e: "e \<in> set white_space_chars" and s: "s = u @ e"
    by (auto simp: ends_with_space_def suffix_def)
  show "IsSpace (fst (DecodeLastRuneInString s))"
    unfolding s DL_white_char [OF e] by (rule wsc(5) [OF e])
next
  assume "IsSpace (fst (DecodeLastRuneInString s))"
  then have "drop (length s - snd (DecodeLastRuneInString s)) s \<in> set white_space_chars"
    by (rule DL_space_char)
  then show "ends_with_space s"
    unfolding ends_with_space_def using suffix_drop by blast
qed

subsection \<open>White-space texts\<close>

lemma white_space_Nil: "white_space []"
  by (simp add: white_space.simps)

lemma white_space_char:
  assumes "e \<in> set white_space_chars" "white_space l"
  shows "white_space (e @ l)"
proof -
  have ne: "e @ l \<noteq> []" using wsc(1) [OF assms(1)] by simp
  have "if prefix e (e @ l) then white_space (drop (length e) (e @ l)) else False"
    using assms(2) by simp
  then have "\<exists>e' \<in> set white_space_chars.
      if prefix e' (e @ l) then white_space (drop (length e') (e @ l)) else False"
    using assms(1) by (rule bexI)
  with ne show ?thesis by (subst white_space.simps) (simp only: if_False)
qed

lemma white_space_split:
  assumes "white_space s" "s \<noteq> []"
  obtains e l where "e \<in> set white_space_chars" "s = e @ l" "white_space l"
proof -
  from assms obtain e where e: "e \<in> set white_space_chars" "prefix e s"
    "white_space (drop (length e) s)"
    by (subst (asm) white_space.simps) (auto split: if_splits)
  from e(2) have "s = e @ drop (length e) s" by (auto simp: prefix_def)
  with e(1,3) that show ?thesis by blast
qed

lemma white_space_induct [consumes 1, case_names Nil char]:
  assumes "white_space s" and "P []"
    and "\<And>e l. e \<in> set white_space_chars \<Longrightarrow> white_space l \<Longrightarrow> P l \<Longrightarrow> P (e @ l)"
  shows "P s"
  using assms(1)
proof (induction s rule: length_induct)
  case (1 s)
  show ?case
  proof (cases "s = []")
    case True
    with assms(2) show ?thesis by simp
  next
    case False
    with 1(2) obtain e l where e: "e \<in> set white_space_chars" "s = e @ l" "white_space l"
      by (rule white_space_split)
    have "length l < length s" using wsc(1) [OF e(1)] e(2) by simp
    with 1(1) e(3) have "P l" by blast
    with e show ?thesis using assms(3) by blast
  qed
qed

lemma white_space_append: "white_space a \<Longrightarrow> white_space b \<Longrightarrow> white_space (a @ b)"
  by (induction a rule: white_space_induct) (simp_all add: white_space_char)

lemma white_space_single: "e \<in> set white_space_chars \<Longrightarrow> white_space e"
  using white_space_char [of e "[]"] by (simp add: white_space_Nil)

lemma white_space_start: "white_space l \<Longrightarrow> l = [] \<or> RuneStart (hd l)"
proof (induction l rule: white_space_induct)
  case Nil
  show ?case by simp
next
  case (char e l)
  from wsc(1,3) [OF char(1)] show ?case by simp
qed

lemma white_space_ascii: "\<forall>c \<in> set m. asciiSpace c \<Longrightarrow> white_space m"
proof (induction m)
  case Nil
  show ?case by (rule white_space_Nil)
next
  case (Cons c m)
  then have "asciiSpace c" by simp
  then have "byte c \<in> {0x09, 0x0A, 0x0B, 0x0C, 0x0D, 0x20}" by (auto simp: asciiSpace_def)
  then have "c \<in> {CHR 0x09, CHR 0x0A, CHR 0x0B, CHR 0x0C, CHR 0x0D, CHR 0x20}"
    by (auto intro: of_char_eqI [where ?'a = nat])
  then have "[c] \<in> set white_space_chars" by (auto simp: white_space_chars_def)
  moreover have "white_space m" using Cons by simp
  ultimately have "white_space ([c] @ m)" by (rule white_space_char)
  then show ?case by simp
qed

lemma TLF_white: "white_space l \<Longrightarrow> TrimLeftFunc (l @ s) = TrimLeftFunc s"
proof (induction l rule: white_space_induct)
  case Nil
  show ?case by simp
next
  case (char e l)
  have "e @ l @ s \<noteq> []" using wsc(1) [OF char(1)] by simp
  with Decode_white_char [OF char(1), of "l @ s"] char(3)
  show ?case by (simp add: TLF_step)
qed

lemma TLF_white_Nil: "white_space l \<Longrightarrow> TrimLeftFunc l = []"
  using TLF_white [of l "[]"] by (simp add: TLF_Nil)

lemma TLF_decomp: "\<exists>l. s = l @ TrimLeftFunc s \<and> white_space l"
proof (induction s rule: length_induct)
  case (1 s)
  show ?case
  proof (cases "IsSpace (fst (DecodeRuneInString s))")
    case False
    then have "TrimLeftFunc s = s" by (rule TLF_id)
    then show ?thesis using white_space_Nil by auto
  next
    case True
    define w where "w = snd (DecodeRuneInString s)"
    have ne: "s \<noteq> []" using True by (rule Decode_space_start(1))
    have e: "take w s \<in> set white_space_chars"
      unfolding w_def using True by (rule Decode_space_char)
    have "1 \<le> w" unfolding w_def using ne by (rule DecodeRuneInString_width)
    with ne have "length (drop w s) < length s" by simp
    with 1 obtain l where l: "drop w s = l @ TrimLeftFunc (drop w s)" "white_space l" by blast
    have "TrimLeftFunc s = TrimLeftFunc (drop w s)" using ne True by (simp add: TLF_step w_def)
    with l(1) have "s = (take w s @ l) @ TrimLeftFunc s"
      by (metis append.assoc append_take_drop_id)
    moreover have "white_space (take w s @ l)" using e l(2) by (rule white_space_char)
    ultimately show ?thesis by blast
  qed
qed

lemma TRF_white: "white_space t \<Longrightarrow> TrimRightFunc (y @ t) = TrimRightFunc y"
proof (induction t arbitrary: y rule: white_space_induct)
  case Nil
  show ?case by simp
next
  case (char e l)
  have d: "DecodeLastRuneInString (y @ e) = DecodeRuneInString e"
    using char(1) by (rule DL_white_char)
  have sp: "IsSpace (fst (DecodeLastRuneInString (y @ e)))"
    unfolding d by (rule wsc(5) [OF char(1)])
  have "snd (DecodeLastRuneInString (y @ e)) = length e"
    unfolding d by (rule wsc(6) [OF char(1)])
  with TRF_space_step [OF sp] have "TrimRightFunc (y @ e) = TrimRightFunc y" by simp
  with char(3) [of "y @ e"] show ?case by simp
qed

lemma TRF_decomp: "\<exists>t. s = TrimRightFunc s @ t \<and> white_space t"
proof (induction s rule: length_induct)
  case (1 s)
  show ?case
  proof (cases "IsSpace (fst (DecodeLastRuneInString s))")
    case False
    then have "TrimRightFunc s = s" by (rule TRF_id)
    then show ?thesis using white_space_Nil by auto
  next
    case True
    define w where "w = snd (DecodeLastRuneInString s)"
    define p where "p = take (length s - w) s"
    have ne: "s \<noteq> []" using True by (rule DL_space_start(1))
    have e: "drop (length s - w) s \<in> set white_space_chars"
      unfolding w_def using True by (rule DL_space_char)
    have "1 \<le> w" unfolding w_def using ne by (rule DecodeLastRuneInString_width)
    with ne have "length p < length s" by (simp add: p_def)
    with 1 obtain t where t: "p = TrimRightFunc p @ t" "white_space t" by blast
    have "TrimRightFunc s = TrimRightFunc p"
      unfolding p_def w_def using True by (rule TRF_space_step)
    moreover have "s = p @ drop (length s - w) s" by (simp add: p_def)
    ultimately have "s = TrimRightFunc s @ (t @ drop (length s - w) s)"
      using t(1) by (metis append.assoc)
    moreover have "white_space (t @ drop (length s - w) s)"
      using t(2) white_space_single [OF e] by (rule white_space_append)
    ultimately show ?thesis by blast
  qed
qed

lemma TrimSpace_decomp:
  "\<exists>l t. s = l @ TrimSpace s @ t \<and> white_space l \<and> white_space t"
proof -
  obtain l where l: "s = l @ TrimLeftFunc s" "white_space l" using TLF_decomp by blast
  obtain t where t: "TrimLeftFunc s = TrimRightFunc (TrimLeftFunc s) @ t" "white_space t"
    using TRF_decomp by blast
  have "s = l @ TrimSpace s @ t"
    using l(1) t(1) by (simp add: TrimSpace_TrimFunc TrimFunc_def)
  with l(2) t(2) show ?thesis by blast
qed

lemma TrimSpace_ends:
  "\<not> starts_with_space (TrimSpace s)" "\<not> ends_with_space (TrimSpace s)"
  by (simp_all add: starts_with_space_iff ends_with_space_iff TrimSpace_not_space)

lemma Decode_append_start:
  assumes "x \<noteq> []" "m = [] \<or> RuneStart (hd m)"
  shows "DecodeRuneInString (x @ m) = DecodeRuneInString x"
proof (cases "fst (DecodeRuneInString x) \<noteq> RuneError \<or> 2 \<le> snd (DecodeRuneInString x)")
  case True
  then show ?thesis by (rule Decode_append)
next
  case False
  show ?thesis
  proof (cases m)
    case Nil
    then show ?thesis by simp
  next
    case m: (Cons a m')
    with assms(2) have a: "byte a < 0x80 \<or> 0xBF < byte a" by (auto simp: RuneStart_def)
    have a': "byte a < accept_lo s0 \<or> accept_hi s0 < byte a" for s0
      using a accept_range [of s0] by linarith
    from assms(1) obtain c t where x: "x = c # t" by (cases x) auto
    show ?thesis
    proof (cases t)
      case Nil
      with False a' show ?thesis unfolding x m
        by (simp add: Decode_Cons Let_def split: if_splits)
    next
      case t: (Cons c1 t1)
      show ?thesis
      proof (cases t1)
        case Nil
        with False a show ?thesis unfolding x m t
          by (simp add: Decode_Cons Let_def split: if_splits)
      next
        case t1: (Cons c2 t2)
        show ?thesis
        proof (cases t2)
          case Nil
          with False a show ?thesis unfolding x m t t1
            by (simp add: Decode_Cons Let_def split: if_splits)
        next
          case (Cons c3 t3)
          with False a show ?thesis unfolding x m t t1
            by (simp add: Decode_Cons Let_def split: if_splits)
        qed
      qed
    qed
  qed
qed

lemma TLF_append_start:
  assumes m: "m = [] \<or> RuneStart (hd m)"
  shows "TrimLeftFunc (s @ m) = (if TrimLeftFunc s = [] then TrimLeftFunc m else TrimLeftFunc s @ m)"
proof (induction s rule: TrimLeftFunc.induct)
  case (1 s)
  show ?case
  proof (cases "s = []")
    case True
    then show ?thesis by (simp add: TLF_Nil)
  next
    case False
    have d: "DecodeRuneInString (s @ m) = DecodeRuneInString s"
      using False m by (rule Decode_append_start)
    show ?thesis
    proof (cases "IsSpace (fst (DecodeRuneInString s))")
      case sp: True
      have nn: "\<not> \<not> IsSpace (fst (DecodeRuneInString s))" using sp by simp
      note ih = 1 [OF False refl prod.collapse nn]
      have "drop (snd (DecodeRuneInString s)) (s @ m) = drop (snd (DecodeRuneInString s)) s @ m"
        using Decode_width_le [of s] by simp
      with ih sp False show ?thesis by (simp add: TLF_step d)
    next
      case nsp: False
      with False show ?thesis by (simp add: TLF_step d)
    qed
  qed
qed

lemma TrimFunc_white_pad:
  assumes "white_space l" "white_space t"
  shows "TrimFunc (l @ s @ t) = TrimFunc s"
proof -
  have "TrimLeftFunc (l @ s @ t) = TrimLeftFunc (s @ t)"
    using assms(1) by (rule TLF_white)
  also have "\<dots> = (if TrimLeftFunc s = [] then TrimLeftFunc t else TrimLeftFunc s @ t)"
    using white_space_start [OF assms(2)] by (rule TLF_append_start)
  also have "\<dots> = (if TrimLeftFunc s = [] then [] else TrimLeftFunc s @ t)"
    using assms(2) by (simp add: TLF_white_Nil)
  finally show ?thesis
    using assms(2) by (simp add: TrimFunc_def TRF_white TRF_Nil)
qed

lemma TrimSpace_white_pad:
  "white_space l \<Longrightarrow> white_space t \<Longrightarrow> TrimSpace (l @ s @ t) = TrimSpace s"
  by (simp add: TrimSpace_TrimFunc TrimFunc_white_pad)

lemma trimmed_unique:
  assumes "s = l @ x @ t" "white_space l" "white_space t"
    and "\<not> starts_with_space x" "\<not> ends_with_space x"
  shows "TrimSpace s = x"
proof -
  have "TrimSpace s = TrimSpace x" unfolding assms(1) using assms(2,3) by (rule TrimSpace_white_pad)
  also have "\<dots> = x"
    using assms(4,5) by (simp add: TrimSpace_TrimFunc TrimFunc_id starts_with_space_iff ends_with_space_iff)
  finally show ?thesis .
qed

subsection \<open>Fences\<close>









subsection \<open>Index, LastIndex and slices\<close>

lemma HasPrefix_single: "HasPrefix (c # t) [d] = (c = d)"
  by (simp add: HasPrefix_def)

lemma Index_single_range: "- 1 \<le> Index s [c] \<and> Index s [c] < int (length s)"
  by (induction s) (auto simp: HasPrefix_single Let_def)

lemma Index_single_iff: "Index s [c] = - 1 \<longleftrightarrow> c \<notin> set s"
proof (induction s)
  case Nil
  then show ?case by simp
next
  case (Cons a s)
  have "Index s [c] < 0 \<longleftrightarrow> Index s [c] = - 1"
    using Index_single_range [of s c] by linarith
  with Cons show ?case by (auto simp: HasPrefix_single Let_def)
qed

lemma Index_single_bounds: "c \<in> set s \<Longrightarrow> 0 \<le> Index s [c] \<and> Index s [c] < int (length s)"
  using Index_single_range [of s c] Index_single_iff [of s c] by linarith

lemma LastIndex_single_range: "- 1 \<le> LastIndex s [c] \<and> LastIndex s [c] < int (length s)"
  by (induction s) (auto simp: HasPrefix_single Let_def)

lemma LastIndex_single_iff: "LastIndex s [c] = - 1 \<longleftrightarrow> c \<notin> set s"
proof (induction s)
  case Nil
  then show ?case by simp
next
  case (Cons a s)
  have "\<not> 0 \<le> LastIndex s [c] \<longleftrightarrow> LastIndex s [c] = - 1"
    using LastIndex_single_range [of s c] by linarith
  with Cons show ?case by (auto simp: HasPrefix_single Let_def)
qed


lemma Index_hd: "Index (c # t) [c] = 0"
  by (simp add: HasPrefix_single)

lemma LastIndex_snoc: "LastIndex (u @ [c]) [c] = int (length u)"
  by (induction u) (auto simp: HasPrefix_single Let_def)

lemma slice_whole: "slice s 0 (int (length s)) = Inr s"
  by (simp add: slice_def)

subsection \<open>The paths of parseAIResponse\<close>

lemma set_TrimSpace: "set (TrimSpace s) \<subseteq> set s"
proof -
  obtain a b where "s = a @ TrimSpace s @ b" using TrimSpace_infix by blast
  then have "set s = set a \<union> set (TrimSpace s) \<union> set b" by (metis set_append sup_assoc)
  then show ?thesis by blast
qed

lemma set_TrimPrefix: "set (TrimPrefix s p) \<subseteq> set s"
  by (auto simp: TrimPrefix_def dest: in_set_dropD)

lemma set_TrimSuffix: "set (TrimSuffix s p) \<subseteq> set s"
  by (auto simp: TrimSuffix_def dest: in_set_takeD)

lemma set_cleanResponse: "set (cleanResponse s) \<subseteq> set s"
  unfolding cleanResponse_def
  using set_TrimSpace set_TrimPrefix set_TrimSuffix by (meson subset_trans)

lemma parseAIResponse_no_braces:
  assumes "CHR ''{'' \<notin> set (cleanResponse s) \<or> CHR ''}'' \<notin> set (cleanResponse s)"
  shows "parseAIResponse unm s =
           Inr (createFallbackReview ''No JSON found in AI response'' (cleanResponse s))"
proof -
  from assms have "Index (cleanResponse s) ''{'' = - 1 \<or> LastIndex (cleanResponse s) ''}'' = - 1"
    by (simp add: Index_single_iff LastIndex_single_iff)
  then show ?thesis
    unfolding parseAIResponse_def cleanResponse_def Let_def by (simp only: if_True)
qed

lemma parseAIResponse_panic:
  assumes "CHR ''{'' \<in> set (cleanResponse s)" "CHR ''}'' \<in> set (cleanResponse s)"
    and "LastIndex (cleanResponse s) ''}'' + 1 < Index (cleanResponse s) ''{''"
  shows "parseAIResponse unm s =
           Inl (SliceBoundsOutOfRange (Index (cleanResponse s) ''{'')
                  (LastIndex (cleanResponse s) ''}'' + 1))"
proof -
  from assms(1,2) have "\<not> (Index (cleanResponse s) ''{'' = - 1 \<or> LastIndex (cleanResponse s) ''}'' = - 1)"
    by (simp add: Index_single_iff LastIndex_single_iff)
  moreover have "slice (cleanResponse s) (Index (cleanResponse s) ''{'')
       (LastIndex (cleanResponse s) ''}'' + 1)
     = Inl (SliceBoundsOutOfRange (Index (cleanResponse s) ''{'')
                  (LastIndex (cleanResponse s) ''}'' + 1))"
    using assms(3) by (simp add: slice_def)
  ultimately show ?thesis
    unfolding parseAIResponse_def cleanResponse_def Let_def by simp
qed

lemma candidate_Some_iff:
  "candidate s = Some j \<longleftrightarrow>
     CHR ''{'' \<in> set (cleanResponse s) \<and> CHR ''}'' \<in> set (cleanResponse s) \<and>
     Index (cleanResponse s) ''{'' \<le> LastIndex (cleanResponse s) ''}'' + 1 \<and>
     j = take (nat (LastIndex (cleanResponse s) ''}'' + 1 - Index (cleanResponse s) ''{''))
           (drop (nat (Index (cleanResponse s) ''{'')) (cleanResponse s))"
proof -
  have b: "0 \<le> Index (cleanResponse s) ''{''" if "CHR ''{'' \<in> set (cleanResponse s)"
    using that Index_single_bounds by blast
  have c: "LastIndex (cleanResponse s) ''}'' + 1 \<le> int (length (cleanResponse s))"
    using LastIndex_single_range [of "cleanResponse s" "CHR ''}''"] by simp
  show ?thesis
    using b c
    by (auto simp: candidate_def Let_def slice_def Index_single_iff LastIndex_single_iff)
qed

lemma parseAIResponse_candidate:
  assumes "candidate s = Some j"
  shows "parseAIResponse unm s =
     (if Count j ''{'' \<noteq> Count j ''}''
      then Inr (createFallbackReview ''Incomplete JSON response'' j)
      else case unm j of
        Inl err \<Rightarrow> Inr (createFallbackReview ''JSON parsing error'' j)
      | Inr review \<Rightarrow>
          if allSignalsZero review
          then Inr (createFallbackReview ''Incomplete AI response'' j)
          else Inr review)"
proof -
  from assms have ne: "\<not> (Index (cleanResponse s) ''{'' = - 1 \<or> LastIndex (cleanResponse s) ''}'' = - 1)"
    and sl: "slice (cleanResponse s) (Index (cleanResponse s) ''{'')
              (LastIndex (cleanResponse s) ''}'' + 1) = Inr j"
    by (auto simp: candidate_def Let_def split: if_splits sum.splits)
  show ?thesis
    unfolding parseAIResponse_def Let_def cleanResponse_def [symmetric] allSignalsZero_def
    using ne sl by (simp split: sum.splits)
qed

lemma parseAIResponse_outcome:
  "parseAIResponse unm s =
     (if CHR ''{'' \<notin> set (cleanResponse s) \<or> CHR ''}'' \<notin> set (cleanResponse s)
      then Inr (createFallbackReview ''No JSON found in AI response'' (cleanResponse s))
      else case candidate s of
        None \<Rightarrow> Inl (SliceBoundsOutOfRange (Index (cleanResponse s) ''{'')
                  (LastIndex (cleanResponse s) ''}'' + 1))
      | Some j \<Rightarrow>
          (if Count j ''{'' \<noteq> Count j ''}''
           then Inr (createFallbackReview ''Incomplete JSON response'' j)
           else (case unm j of
             Inl err \<Rightarrow> Inr (createFallbackReview ''JSON parsing error'' j)
           | Inr review \<Rightarrow>
               if allSignalsZero review
               then Inr (createFallbackReview ''Incomplete AI response'' j)
               else Inr review)))"
proof (cases "CHR ''{'' \<notin> set (cleanResponse s) \<or> CHR ''}'' \<notin> set (cleanResponse s)")
  case True
  then show ?thesis by (simp add: parseAIResponse_no_braces)
next
  case False
  show ?thesis
  proof (cases "candidate s")
    case None
    with False have "LastIndex (cleanResponse s) ''}'' + 1 < Index (cleanResponse s) ''{''"
      using candidate_Some_iff [of s] by (metis linorder_not_le option.distinct(1))
    with False None show ?thesis by (simp add: parseAIResponse_panic)
  next
    case (Some j)
    with False show ?thesis by (simp add: parseAIResponse_candidate)
  qed
qed

subsection \<open>The candidate and the text around it\<close>

lemma brace_free_append [simp]: "brace_free (a @ b) \<longleftrightarrow> brace_free a \<and> brace_free b"
  by (auto simp: brace_free_def)

lemma brace_free_Nil [simp]: "brace_free []"
  by (simp add: brace_free_def)




















section \<open>The claims\<close>

text \<open>
  C1. The claim: for every input string \<^verbatim>\<open>parseAIResponse\<close> and \<^verbatim>\<open>parseQuestions\<close> return
  normally, and the slice between the first opening and the last closing bracket is always
  in bounds. On the reply \<^verbatim>\<open>"} {"\<close> the first \<^verbatim>\<open>{\<close> is at offset 2 and the last \<^verbatim>\<open>}\<close> at
  offset 0, so \<^verbatim>\<open>response[start : end+1]\<close> is \<^verbatim>\<open>response[2:1]\<close>: the function panics,
  whatever \<^verbatim>\<open>json.Unmarshal\<close> would do.
\<close>

theorem C1_parseAIResponse_panics:
  \<open>parseAIResponse unmarshal ''} {'' = Inl (SliceBoundsOutOfRange 2 1)\<close>
  by code_simp

text \<open>
  C8. The claim: \<^verbatim>\<open>parseQuestions\<close> returns the parsed list, or the fixed three questions on
  any failure. On \<^verbatim>\<open>"] ["\<close> both brackets occur, the first \<^verbatim>\<open>[\<close> after the last \<^verbatim>\<open>]\<close>, and
  the slice expression \<^verbatim>\<open>response[2:1]\<close> panics: nothing is returned.
\<close>

theorem C8_parseQuestions_panics:
  \<open>parseQuestions unmarshal ''] ['' = Inl (SliceBoundsOutOfRange 2 1)\<close>
  by code_simp

subsection \<open>C2\<close>

lemma populated_fallback: "populated (createFallbackReview reason raw)"
  by (simp add: populated_def createFallbackReview_def Let_def)

text \<open>
  C2, as amended. On every fallback path the result is \<^verbatim>\<open>createFallbackReview\<close>'s, and every
  field of that is populated. On the success path the result is the decoded object
  unchanged: only one of its three signal fields is known to be non-zero.
\<close>

theorem C2_populated_or_decoded:
  assumes "parseAIResponse unm s = Inr r"
  shows "(\<exists>reason raw. r = createFallbackReview reason raw \<and> populated r)
         \<or> (\<exists>j. candidate s = Some j \<and> unm j = Inr r \<and> \<not> allSignalsZero r)"
proof -
  have f: "\<exists>reason raw. createFallbackReview a b = createFallbackReview reason raw
             \<and> populated (createFallbackReview a b)" for a b
    using populated_fallback by blast
  from assms show ?thesis
    unfolding parseAIResponse_outcome [of unm s]
    using f by (auto split: if_splits option.splits sum.splits)
qed

theorem C2_witness:
  \<open>parseAIResponse sample_unmarshal json_partial = Inr (zero_review\<lparr>OverallScore := 85\<rparr>)
   \<and> candidate json_partial = Some json_partial
   \<and> sample_unmarshal json_partial = Inr (zero_review\<lparr>OverallScore := 85\<rparr>)
   \<and> \<not> allSignalsZero (zero_review\<lparr>OverallScore := 85\<rparr>)
   \<and> \<not> populated (zero_review\<lparr>OverallScore := 85\<rparr>)\<close>
proof -
  have p: "parseAIResponse sample_unmarshal json_partial = Inr (zero_review\<lparr>OverallScore := 85\<rparr>)"
    by code_simp
  have c: "candidate json_partial = Some json_partial" by code_simp
  have n: "\<not> populated (zero_review\<lparr>OverallScore := 85\<rparr>)" by code_simp
  from C2_populated_or_decoded [OF p] c n show ?thesis
    using p by auto
qed

text \<open>
  The claim as stated fails on the success path: the reply \<^verbatim>\<open>{"overall_score": 85}\<close> is
  returned as decoded, with no issue, no suggestion, no feedback, no follow-up question,
  an empty complexity record, readability 0 and no test coverage.
\<close>

theorem C2_counterexample:
  \<open>parseAIResponse sample_unmarshal ''{"overall_score": 85}''
     = Inr \<lparr> OverallScore = 85, Issues = [], Suggestions = [], InterviewerFeedback = '''',
             FollowUpQuestions = [],
             Complexity = \<lparr> TimeComplexity = '''', SpaceComplexity = '''', CanOptimize = False,
                            OptimizedApproach = '''' \<rparr>,
             ReadabilityScore = 0, TestCoverage = '''' \<rparr>
   \<and> \<not> populated
         \<lparr> OverallScore = 85, Issues = [], Suggestions = [], InterviewerFeedback = '''',
           FollowUpQuestions = [],
           Complexity = \<lparr> TimeComplexity = '''', SpaceComplexity = '''', CanOptimize = False,
                          OptimizedApproach = '''' \<rparr>,
           ReadabilityScore = 0, TestCoverage = '''' \<rparr>\<close>
  by code_simp

subsection \<open>C3\<close>

text \<open>
  C3, as amended. When the reply has no \<^verbatim>\<open>{\<close> or no \<^verbatim>\<open>}\<close>, and when the candidate has as
  many \<^verbatim>\<open>{\<close> as \<^verbatim>\<open>}\<close> and does not parse, the result is the total-failure default: both
  scores 50, one parsing issue naming the reason, one troubleshooting suggestion, the
  complexity texts "Unable to analyze", three follow-up questions. Its feedback echoes, inside
  the prompt, at most the first 500 bytes of the text handed to the fallback (with an
  ellipsis when cut): the trimmed, fence-stripped reply when a brace is missing and the
  candidate when it does not parse, not the raw reply; when that text is empty a fixed
  notice stands in its place.
\<close>

theorem C3_total_failure_default:
  \<open>(CHR ''{'' \<notin> set s \<or> CHR ''}'' \<notin> set s \<longrightarrow>
      parseAIResponse unm s
        = Inr (createFallbackReview ''No JSON found in AI response'' (cleanResponse s)))
   \<and> (candidate s = Some j \<and> Count j ''{'' = Count j ''}'' \<and> unm j = Inl e \<longrightarrow>
      parseAIResponse unm s = Inr (createFallbackReview ''JSON parsing error'' j))
   \<and> OverallScore (createFallbackReview reason x) = 50
   \<and> ReadabilityScore (createFallbackReview reason x) = 50
   \<and> Issues (createFallbackReview reason x) =
       [\<lparr> Type = ''parsing'', Severity = ''medium'', LineNumber = 0,
          CodeIssue.Description = ''AI response parsing issue: '' @ reason,
          Solution = ''Try running the AI review again, or check your code for syntax issues.'' \<rparr>]
   \<and> map Category (Suggestions (createFallbackReview reason x)) = [''troubleshooting'']
   \<and> TimeComplexity (Complexity (createFallbackReview reason x)) = ''Unable to analyze''
   \<and> SpaceComplexity (Complexity (createFallbackReview reason x)) = ''Unable to analyze''
   \<and> length (FollowUpQuestions (createFallbackReview reason x)) = 3
   \<and> InterviewerFeedback (createFallbackReview reason x) =
       ''I'm having trouble analyzing your code automatically. ''
       @ (if x = '''' then ''AI provided an empty or malformed response. Please try again.''
          else if length x > 500 then take 500 x @ ''...'' else x)
       @ '' Let's focus on the core logic - can you walk me through your approach?''\<close>
proof -
  have a: "parseAIResponse unm s
        = Inr (createFallbackReview ''No JSON found in AI response'' (cleanResponse s))"
    if "CHR ''{'' \<notin> set s \<or> CHR ''}'' \<notin> set s"
    using that set_cleanResponse [of s] by (intro parseAIResponse_no_braces) blast
  have b: "parseAIResponse unm s = Inr (createFallbackReview ''JSON parsing error'' j)"
    if "candidate s = Some j \<and> Count j ''{'' = Count j ''}'' \<and> unm j = Inl e"
    using that by (simp add: parseAIResponse_candidate)
  have c: "InterviewerFeedback (createFallbackReview reason x) =
       ''I'm having trouble analyzing your code automatically. ''
       @ (if x = '''' then ''AI provided an empty or malformed response. Please try again.''
          else if length x > 500 then take 500 x @ ''...'' else x)
       @ '' Let's focus on the core logic - can you walk me through your approach?''"
    by (simp add: createFallbackReview_def Let_def)
  show ?thesis
    using a b c by (simp add: createFallbackReview_def Let_def)
qed

theorem C3_witness:
  \<open>CHR ''{'' \<notin> set ''no json here''
   \<and> parseAIResponse sample_unmarshal ''no json here''
       = Inr (createFallbackReview ''No JSON found in AI response'' ''no json here'')
   \<and> candidate ''Sure! {oops}'' = Some ''{oops}''
   \<and> Count ''{oops}'' ''{'' = Count ''{oops}'' ''}''
   \<and> sample_unmarshal ''{oops}'' = Inl ''invalid character''
   \<and> parseAIResponse sample_unmarshal ''Sure! {oops}''
       = Inr (createFallbackReview ''JSON parsing error'' ''{oops}'')\<close>
proof -
  have 1: "CHR ''{'' \<notin> set ''no json here''" by simp
  have 2: "cleanResponse ''no json here'' = ''no json here''" by code_simp
  have 3: "candidate ''Sure! {oops}'' = Some ''{oops}''" by code_simp
  have 4: "Count ''{oops}'' ''{'' = Count ''{oops}'' ''}''" by code_simp
  have 5: "sample_unmarshal ''{oops}'' = Inl ''invalid character''" by code_simp
  from C3_total_failure_default [of "''no json here''" sample_unmarshal "''{oops}''" "''invalid character''"]
    C3_total_failure_default [of "''Sure! {oops}''" sample_unmarshal "''{oops}''" "''invalid character''"]
  show ?thesis using 1 2 3 4 5 by simp
qed

text \<open>
  The claim as stated fails on the feedback. For a raw reply of 600 bytes of prose followed
  by \<^verbatim>\<open>{oops}\<close>, the feedback echoes the candidate \<^verbatim>\<open>{oops}\<close>, which is no part of the
  first 500 bytes of the raw reply. \<open>spec_echo_feedback\<close> is the feedback in the claim's
  words.
\<close>

theorem C3_counterexample:
  \<open>parseAIResponse sample_unmarshal (replicate 600 (CHR ''x'') @ ''{oops}'')
     = Inr (createFallbackReview ''JSON parsing error'' ''{oops}'')
   \<and> InterviewerFeedback (createFallbackReview ''JSON parsing error'' ''{oops}'')
     = ''I'm having trouble analyzing your code automatically. {oops} Let's focus on the core logic - can you walk me through your approach?''
   \<and> spec_echo_feedback (replicate 600 (CHR ''x'') @ ''{oops}'')
     = ''I'm having trouble analyzing your code automatically. ''
       @ replicate 500 (CHR ''x'') @ ''...''
       @ '' Let's focus on the core logic - can you walk me through your approach?''
   \<and> InterviewerFeedback (createFallbackReview ''JSON parsing error'' ''{oops}'')
     \<noteq> spec_echo_feedback (replicate 600 (CHR ''x'') @ ''{oops}'')\<close>
  by code_simp

subsection \<open>C4\<close>

text \<open>
  C4, as amended. When the candidate has unequal counts of \<^verbatim>\<open>{\<close> and \<^verbatim>\<open>}\<close>,
  \<^verbatim>\<open>parseAIResponse\<close> returns the total-failure default built from the candidate with the
  reason "Incomplete JSON response": both scores 50 and the single parsing issue of severity
  medium. It recovers neither issues nor a score from the text.
\<close>

theorem C4_unbalanced_default:
  assumes "candidate s = Some j" and "Count j ''{'' \<noteq> Count j ''}''"
  shows \<open>parseAIResponse unm s = Inr (createFallbackReview ''Incomplete JSON response'' j)
         \<and> OverallScore (createFallbackReview ''Incomplete JSON response'' j) = 50
         \<and> ReadabilityScore (createFallbackReview ''Incomplete JSON response'' j) = 50
         \<and> Issues (createFallbackReview ''Incomplete JSON response'' j) =
             [\<lparr> Type = ''parsing'', Severity = ''medium'', LineNumber = 0,
                CodeIssue.Description = ''AI response parsing issue: Incomplete JSON response'',
                Solution = ''Try running the AI review again, or check your code for syntax issues.'' \<rparr>]\<close>
  using assms by (simp add: parseAIResponse_candidate createFallbackReview_def Let_def)

theorem C4_witness:
  \<open>candidate json_truncated = Some json_truncated
   \<and> Count json_truncated ''{'' = 2 \<and> Count json_truncated ''}'' = 1
   \<and> parseAIResponse sample_unmarshal json_truncated
       = Inr (createFallbackReview ''Incomplete JSON response'' json_truncated)\<close>
proof -
  have 1: "candidate json_truncated = Some json_truncated" by code_simp
  have 2: "Count json_truncated ''{'' = 2" by code_simp
  have 3: "Count json_truncated ''}'' = 1" by code_simp
  have "Count json_truncated ''{'' \<noteq> Count json_truncated ''}''" by (simp add: 2 3)
  from C4_unbalanced_default [OF 1 this, of sample_unmarshal] 1 2 3 show ?thesis by simp
qed

text \<open>
  The claim as stated fails: on the truncated reply
  \<^verbatim>\<open>{"overall_score": 60, "issues": [{"type":"bug","severity":"high","description":"leak"}\<close>
  the candidate has two \<^verbatim>\<open>{\<close> and one \<^verbatim>\<open>}\<close>, and the overall score returned is the
  neutral 50, neither the 60 of the text nor 0.
\<close>

theorem C4_counterexample:
  \<open>json_truncated
     = ''{"overall_score": 60, "issues": [{"type":"bug","severity":"high","description":"leak"}''
   \<and> candidate json_truncated = Some json_truncated
   \<and> Count json_truncated ''{'' \<noteq> Count json_truncated ''}''
   \<and> parseAIResponse sample_unmarshal json_truncated
       = Inr (createFallbackReview ''Incomplete JSON response'' json_truncated)
   \<and> OverallScore (createFallbackReview ''Incomplete JSON response'' json_truncated) = 50\<close>
  by code_simp

subsection \<open>C5\<close>

text \<open>
  C5, as amended. When the candidate has as many \<^verbatim>\<open>{\<close> as \<^verbatim>\<open>}\<close> and unmarshals cleanly
  into \<open>r\<close>, the result is the total-failure default (reason "Incomplete AI response") if
  all three signal fields of \<open>r\<close> are zero, and \<open>r\<close> itself otherwise; in the first case
  the result is not \<open>r\<close>.
\<close>

theorem C5_validation_gate:
  assumes "candidate s = Some j" and "Count j ''{'' = Count j ''}''" and "unm j = Inr r"
  shows \<open>parseAIResponse unm s =
           Inr (if OverallScore r = 0 \<and> ReadabilityScore r = 0 \<and> InterviewerFeedback r = ''''
                then createFallbackReview ''Incomplete AI response'' j else r)
         \<and> (if OverallScore r = 0 \<and> ReadabilityScore r = 0 \<and> InterviewerFeedback r = ''''
            then parseAIResponse unm s \<noteq> Inr r else parseAIResponse unm s = Inr r)\<close>
proof -
  have "createFallbackReview ''Incomplete AI response'' j \<noteq> r" if "OverallScore r = 0"
  proof
    assume "createFallbackReview ''Incomplete AI response'' j = r"
    then have "OverallScore (createFallbackReview ''Incomplete AI response'' j) = OverallScore r"
      by simp
    with that show False by (simp add: createFallbackReview_def Let_def)
  qed
  with assms show ?thesis
    by (simp add: parseAIResponse_candidate allSignalsZero_def)
qed

theorem C5_witness:
  \<open>candidate json_zero = Some json_zero
   \<and> Count json_zero ''{'' = Count json_zero ''}''
   \<and> sample_unmarshal json_zero = Inr zero_review
   \<and> parseAIResponse sample_unmarshal json_zero
       = Inr (createFallbackReview ''Incomplete AI response'' json_zero)
   \<and> parseAIResponse sample_unmarshal json_zero \<noteq> Inr zero_review\<close>
proof -
  have 1: "candidate json_zero = Some json_zero" by code_simp
  have 2: "Count json_zero ''{'' = Count json_zero ''}''" by code_simp
  have 3: "sample_unmarshal json_zero = Inr zero_review" by code_simp
  have 4: "(OverallScore zero_review = 0 \<and> ReadabilityScore zero_review = 0
           \<and> InterviewerFeedback zero_review = '''') = True" by (simp add: zero_review_def)
  note gate = C5_validation_gate [where s = json_zero and j = json_zero
      and unm = sample_unmarshal and r = zero_review, OF 1 2 3, unfolded 4 if_True]
  from gate 1 2 3 show ?thesis by blast
qed

text \<open>
  The claim as stated fails: the candidate \<^verbatim>\<open>{"overall_score": 85, "interviewer_feedback": "use {"}\<close>
  unmarshals cleanly with a non-zero score, but it holds two \<^verbatim>\<open>{\<close> and one \<^verbatim>\<open>}\<close>, so the
  total-failure default is returned and not the parsed object.
\<close>

theorem C5_counterexample:
  \<open>candidate ''{"overall_score": 85, "interviewer_feedback": "use {"}''
     = Some ''{"overall_score": 85, "interviewer_feedback": "use {"}''
   \<and> sample_unmarshal ''{"overall_score": 85, "interviewer_feedback": "use {"}''
     = Inr (zero_review\<lparr>OverallScore := 85, InterviewerFeedback := ''use {''\<rparr>)
   \<and> parseAIResponse sample_unmarshal ''{"overall_score": 85, "interviewer_feedback": "use {"}''
     = Inr (createFallbackReview ''Incomplete JSON response''
              ''{"overall_score": 85, "interviewer_feedback": "use {"}'')
   \<and> parseAIResponse sample_unmarshal ''{"overall_score": 85, "interviewer_feedback": "use {"}''
     \<noteq> Inr (zero_review\<lparr>OverallScore := 85, InterviewerFeedback := ''use {''\<rparr>)\<close>
  by code_simp

subsection \<open>C6\<close>

lemma cleanResponse_object:
  assumes "s = CHR ''{'' # body @ [CHR ''}'']"
  shows "cleanResponse s = s"
proof -
  have hd: "hd s = CHR ''{''" and last: "last s = CHR ''}''" and ne: "s \<noteq> []"
    using assms by simp_all
  have ts: "TrimSpace s = s"
    by (rule TrimSpace_id) (simp add: hd last asciiSpace_def)
  have p1: "\<not> HasPrefix s ''```json''" and p2: "\<not> HasPrefix s ''```''"
    using assms by (auto simp: HasPrefix_def)
  have "drop (length body) (body @ [CHR ''}'']) = [CHR ''}'']" by simp
  then have p3: "\<not> HasSuffix s ''```''"
    unfolding assms HasSuffix_def
    by (cases "length body") (auto simp: Suc_diff_le drop_Cons')
  show ?thesis
    by (simp add: cleanResponse_def ts TrimPrefix_def TrimSuffix_def p1 p2 p3)
qed

lemma candidate_object:
  assumes "s = CHR ''{'' # body @ [CHR ''}'']"
  shows "candidate s = Some s"
proof -
  have i: "Index s ''{'' = 0" unfolding assms by (simp add: HasPrefix_single)
  have "LastIndex ((CHR ''{'' # body) @ [CHR ''}'']) ''}'' = int (length (CHR ''{'' # body))"
    by (rule LastIndex_snoc)
  then have l: "LastIndex s ''}'' + 1 = int (length s)" unfolding assms by simp
  have "LastIndex s ''}'' \<noteq> - 1" using l assms by simp
  then show ?thesis
    unfolding candidate_def Let_def cleanResponse_object [OF assms] l i
    by (simp add: slice_def)
qed

text \<open>
  C6, as amended. When the input is exactly a JSON object that \<^verbatim>\<open>json.Unmarshal\<close> decodes
  to \<open>r\<close>, at least one signal field of \<open>r\<close> is non-zero, and the text holds as many
  \<^verbatim>\<open>{\<close> as \<^verbatim>\<open>}\<close> (those inside string values count), the result is \<open>r\<close> itself.
\<close>

theorem C6_exact_round_trip:
  assumes "s = CHR ''{'' # body @ [CHR ''}'']"
    and "Count s ''{'' = Count s ''}''"
    and "unm s = Inr r"
    and "\<not> (OverallScore r = 0 \<and> ReadabilityScore r = 0 \<and> InterviewerFeedback r = '''')"
  shows "parseAIResponse unm s = Inr r"
proof -
  have "candidate s = Some s" using assms(1) by (rule candidate_object)
  moreover have "\<not> allSignalsZero r" using assms(4) by (simp add: allSignalsZero_def)
  ultimately show ?thesis using assms(2,3) by (simp add: parseAIResponse_candidate)
qed

theorem C6_witness:
  \<open>json_full = CHR ''{'' # butlast (tl json_full) @ [CHR ''}'']
   \<and> Count json_full ''{'' = Count json_full ''}''
   \<and> sample_unmarshal json_full = Inr review_full
   \<and> OverallScore review_full = 85
   \<and> parseAIResponse sample_unmarshal json_full = Inr review_full\<close>
proof -
  have 1: "json_full = CHR ''{'' # butlast (tl json_full) @ [CHR ''}'']" by code_simp
  have 2: "Count json_full ''{'' = Count json_full ''}''" by code_simp
  have 3: "sample_unmarshal json_full = Inr review_full" by code_simp
  have 4: "OverallScore review_full = 85" by (simp add: review_full_def)
  then have 5: "\<not> (OverallScore review_full = 0 \<and> ReadabilityScore review_full = 0
                 \<and> InterviewerFeedback review_full = '''')" by simp
  from C6_exact_round_trip [where s = json_full and unm = sample_unmarshal and r = review_full,
      OF 1 2 3 5] 1 2 3 4
  show ?thesis by simp
qed

text \<open>
  The claim as stated fails: \<open>json_full_brace\<close> is a valid JSON object that supplies every
  field, with scores 85 and 90, whose feedback text is \<^verbatim>\<open>Missing } at the end\<close>. It holds
  two \<^verbatim>\<open>{\<close> and three \<^verbatim>\<open>}\<close>, and the total-failure default is returned instead of the
  object.
\<close>

theorem C6_counterexample:
  \<open>sample_unmarshal json_full_brace
     = Inr (review_full\<lparr>InterviewerFeedback := ''Missing } at the end''\<rparr>)
   \<and> Count json_full_brace ''{'' = 2 \<and> Count json_full_brace ''}'' = 3
   \<and> parseAIResponse sample_unmarshal json_full_brace
     = Inr (createFallbackReview ''Incomplete JSON response'' json_full_brace)
   \<and> parseAIResponse sample_unmarshal json_full_brace
     \<noteq> Inr (review_full\<lparr>InterviewerFeedback := ''Missing } at the end''\<rparr>)\<close>
  by code_simp

subsection \<open>C7\<close>




subsection \<open>C9\<close>

text \<open>
  C9. Every input \<open>s\<close> is \<open>l @ x @ t\<close>, where \<open>l\<close> and \<open>t\<close> are white space and \<open>x\<close> neither
  starts nor ends with white space (this fixes \<open>x\<close>, lemma \<open>trimmed_unique\<close>).
  \<^verbatim>\<open>parseHint\<close> returns \<open>x\<close>, or its fixed prompt when \<open>x\<close> is empty: it strips no fence.
  For \<^verbatim>\<open>parseChatResponse\<close>, \<open>x\<close> is \<open>a @ w1 @ r @ w2 @ b\<close>, where \<open>a\<close> is one leading
  \<^verbatim>\<open>```\<close> when \<open>x\<close> starts with one and empty otherwise, \<open>b\<close> is one trailing \<^verbatim>\<open>```\<close> when
  what follows \<open>a\<close> ends with one and empty otherwise, \<open>w1\<close> and \<open>w2\<close> are white space and
  \<open>r\<close> neither starts nor ends with white space; it returns \<open>r\<close>, or its fixed prompt when
  \<open>r\<close> is empty. Nothing else is removed, so a language tag stays. Neither function takes
  \<^verbatim>\<open>json.Unmarshal\<close>: no JSON is parsed on this path.
\<close>

theorem C9_plain_text:
  \<open>\<exists>l x t. s = l @ x @ t \<and> white_space l \<and> white_space t
      \<and> \<not> starts_with_space x \<and> \<not> ends_with_space x
      \<and> parseHint s =
          (if x = '''' then ''Consider the problem step by step. What's the core requirement here?''
           else x)
      \<and> (\<exists>a w1 r w2 b. x = a @ w1 @ r @ w2 @ b
            \<and> a = (if prefix ''```'' x then ''```'' else '''')
            \<and> b = (if suffix ''```'' (w1 @ r @ w2 @ b) then ''```'' else '''')
            \<and> white_space w1 \<and> white_space w2
            \<and> \<not> starts_with_space r \<and> \<not> ends_with_space r
            \<and> parseChatResponse s =
                (if r = '''' then ''I'm here to help! Could you rephrase your question?''
                 else r))\<close>
proof -
  define x where "x = TrimSpace s"
  define t1 where \<open>t1 = TrimPrefix x ''```''\<close>
  define mid where \<open>mid = TrimSuffix t1 ''```''\<close>
  define r where "r = TrimSpace mid"
  define a where \<open>a = (if prefix ''```'' x then ''```'' else '''')\<close>
  define b where \<open>b = (if suffix ''```'' t1 then ''```'' else '''')\<close>
  obtain l t where lt: "s = l @ x @ t" "white_space l" "white_space t"
    unfolding x_def using TrimSpace_decomp by blast
  obtain w1 w2 where w: "mid = w1 @ r @ w2" "white_space w1" "white_space w2"
    unfolding r_def using TrimSpace_decomp by blast
  have 1: "x = a @ t1"
    unfolding a_def t1_def HasPrefix_iff_prefix [symmetric] by (rule TrimPrefix_decompose)
  have 2: "t1 = mid @ b"
    unfolding b_def mid_def HasSuffix_iff_suffix [symmetric] by (rule TrimSuffix_decompose)
  have t1: "t1 = w1 @ r @ w2 @ b" using 2 w(1) by simp
  have chat: \<open>parseChatResponse s =
      (if r = '''' then ''I'm here to help! Could you rephrase your question?'' else r)\<close>
    by (simp add: parseChatResponse_def Let_def r_def mid_def t1_def x_def)
  have hint: \<open>parseHint s =
       (if x = '''' then ''Consider the problem step by step. What's the core requirement here?''
        else x)\<close>
    by (simp add: parseHint_def Let_def x_def)
  have inner: \<open>\<exists>a w1 r w2 b. x = a @ w1 @ r @ w2 @ b
            \<and> a = (if prefix ''```'' x then ''```'' else '''')
            \<and> b = (if suffix ''```'' (w1 @ r @ w2 @ b) then ''```'' else '''')
            \<and> white_space w1 \<and> white_space w2
            \<and> \<not> starts_with_space r \<and> \<not> ends_with_space r
            \<and> parseChatResponse s =
                (if r = '''' then ''I'm here to help! Could you rephrase your question?''
                 else r)\<close>
  proof (intro exI conjI)
    show "x = a @ w1 @ r @ w2 @ b" using 1 t1 by simp
    show \<open>a = (if prefix ''```'' x then ''```'' else '''')\<close> by (rule a_def)
    show \<open>b = (if suffix ''```'' (w1 @ r @ w2 @ b) then ''```'' else '''')\<close>
      unfolding t1 [symmetric] by (rule b_def)
    show "white_space w1" "white_space w2" by (rule w)+
    show "\<not> starts_with_space r" "\<not> ends_with_space r"
      unfolding r_def by (rule TrimSpace_ends)+
    show \<open>parseChatResponse s =
        (if r = '''' then ''I'm here to help! Could you rephrase your question?'' else r)\<close>
      by (rule chat)
  qed
  show ?thesis
  proof (rule exI [of _ l], rule exI [of _ x], rule exI [of _ t], intro conjI)
    show "s = l @ x @ t" "white_space l" "white_space t" by (rule lt)+
    show "\<not> starts_with_space x" "\<not> ends_with_space x"
      unfolding x_def by (rule TrimSpace_ends)+
    show \<open>parseHint s =
       (if x = '''' then ''Consider the problem step by step. What's the core requirement here?''
        else x)\<close> by (rule hint)
    show \<open>\<exists>a w1 r w2 b. x = a @ w1 @ r @ w2 @ b
            \<and> a = (if prefix ''```'' x then ''```'' else '''')
            \<and> b = (if suffix ''```'' (w1 @ r @ w2 @ b) then ''```'' else '''')
            \<and> white_space w1 \<and> white_space w2
            \<and> \<not> starts_with_space r \<and> \<not> ends_with_space r
            \<and> parseChatResponse s =
                (if r = '''' then ''I'm here to help! Could you rephrase your question?''
                 else r)\<close> by (rule inner)
  qed
qed

theorem C9_witness:
  \<open>(\<exists>l x t. '' ```go'' @ [CHR 0x0A] @ ''x := 1'' @ [CHR 0x0A] @ ''``` '' = l @ x @ t
      \<and> white_space l \<and> white_space t
      \<and> \<not> starts_with_space x \<and> \<not> ends_with_space x
      \<and> parseHint ('' ```go'' @ [CHR 0x0A] @ ''x := 1'' @ [CHR 0x0A] @ ''``` '') =
          (if x = '''' then ''Consider the problem step by step. What's the core requirement here?''
           else x)
      \<and> (\<exists>a w1 r w2 b. x = a @ w1 @ r @ w2 @ b
            \<and> a = (if prefix ''```'' x then ''```'' else '''')
            \<and> b = (if suffix ''```'' (w1 @ r @ w2 @ b) then ''```'' else '''')
            \<and> white_space w1 \<and> white_space w2
            \<and> \<not> starts_with_space r \<and> \<not> ends_with_space r
            \<and> parseChatResponse ('' ```go'' @ [CHR 0x0A] @ ''x := 1'' @ [CHR 0x0A] @ ''``` '') =
                (if r = '''' then ''I'm here to help! Could you rephrase your question?''
                 else r)))
   \<and> parseChatResponse ('' ```go'' @ [CHR 0x0A] @ ''x := 1'' @ [CHR 0x0A] @ ''``` '')
       = ''go'' @ [CHR 0x0A] @ ''x := 1''
   \<and> parseHint ('' ```go'' @ [CHR 0x0A] @ ''x := 1'' @ [CHR 0x0A] @ ''``` '')
       = ''```go'' @ [CHR 0x0A] @ ''x := 1'' @ [CHR 0x0A] @ ''```''
   \<and> parseChatResponse '' ``` '' = ''I'm here to help! Could you rephrase your question?''
   \<and> parseHint ([CHR 0x09] @ [CHR 0x0A]) =
       ''Consider the problem step by step. What's the core requirement here?''\<close>
proof -
  have 1: \<open>parseChatResponse ('' ```go'' @ [CHR 0x0A] @ ''x := 1'' @ [CHR 0x0A] @ ''``` '')
     = ''go'' @ [CHR 0x0A] @ ''x := 1''\<close> by code_simp
  have 2: \<open>parseHint ('' ```go'' @ [CHR 0x0A] @ ''x := 1'' @ [CHR 0x0A] @ ''``` '')
       = ''```go'' @ [CHR 0x0A] @ ''x := 1'' @ [CHR 0x0A] @ ''```''\<close> by code_simp
  have 3: \<open>parseChatResponse '' ``` '' = ''I'm here to help! Could you rephrase your question?''\<close>
    by code_simp
  have 4: \<open>parseHint ([CHR 0x09] @ [CHR 0x0A]) =
       ''Consider the problem step by step. What's the core requirement here?''\<close> by code_simp
  from C9_plain_text [of \<open>'' ```go'' @ [CHR 0x0A] @ ''x := 1'' @ [CHR 0x0A] @ ''``` ''\<close>] 1 2 3 4
  show ?thesis by (intro conjI)
qed

subsection \<open>C10\<close>

text \<open>
  \<^verbatim>\<open>json.Marshal\<close>, like \<^verbatim>\<open>json.Unmarshal\<close>, is a parameter: \<open>marshal r\<close> is the text it
  writes for the review \<open>r\<close>. C10, as amended. Let \<^verbatim>\<open>parseAIResponse\<close> succeed on \<open>s\<close> by the
  full-parse path with the result \<open>r\<close>, let the serialization of \<open>r\<close> be a JSON object that
  \<^verbatim>\<open>json.Unmarshal\<close> decodes back to \<open>r\<close>, and let it hold as many \<^verbatim>\<open>{\<close> as \<^verbatim>\<open>}\<close>. Then
  feeding the serialization back yields \<open>r\<close> again.
\<close>

theorem C10_round_trip:
  assumes "candidate s = Some j" and "Count j ''{'' = Count j ''}''" and "unm j = Inr r"
    and "\<not> (OverallScore r = 0 \<and> ReadabilityScore r = 0 \<and> InterviewerFeedback r = '''')"
    and "marshal r = CHR ''{'' # body @ [CHR ''}'']"
    and "unm (marshal r) = Inr r"
    and "Count (marshal r) ''{'' = Count (marshal r) ''}''"
  shows "parseAIResponse unm s = Inr r \<and> parseAIResponse unm (marshal r) = Inr r"
proof -
  have nz: "\<not> allSignalsZero r" using assms(4) by (simp add: allSignalsZero_def)
  have "parseAIResponse unm s = Inr r"
    using assms(1-3) nz by (simp add: parseAIResponse_candidate)
  moreover have "candidate (marshal r) = Some (marshal r)"
    using assms(5) by (rule candidate_object)
  then have "parseAIResponse unm (marshal r) = Inr r"
    using assms(6,7) nz by (simp add: parseAIResponse_candidate)
  ultimately show ?thesis by simp
qed

theorem C10_witness:
  \<open>candidate json_full = Some json_full
   \<and> sample_unmarshal json_full = Inr review_full
   \<and> sample_marshal review_full = marshalled_full
   \<and> sample_unmarshal (sample_marshal review_full) = Inr review_full
   \<and> Count marshalled_full ''{'' = Count marshalled_full ''}''
   \<and> parseAIResponse sample_unmarshal json_full = Inr review_full
   \<and> parseAIResponse sample_unmarshal (sample_marshal review_full) = Inr review_full\<close>
proof -
  have 1: "candidate json_full = Some json_full" by code_simp
  have 2: "Count json_full ''{'' = Count json_full ''}''" by code_simp
  have 3: "sample_unmarshal json_full = Inr review_full" by code_simp
  have 4: "\<not> (OverallScore review_full = 0 \<and> ReadabilityScore review_full = 0
               \<and> InterviewerFeedback review_full = '''')" by (simp add: review_full_def)
  have m: "sample_marshal review_full = marshalled_full" by (simp add: sample_marshal_def)
  have 5: "sample_marshal review_full
             = CHR ''{'' # butlast (tl marshalled_full) @ [CHR ''}'']"
    unfolding m by code_simp
  have 6: "sample_unmarshal (sample_marshal review_full) = Inr review_full"
    unfolding m by code_simp
  have 7: "Count (sample_marshal review_full) ''{'' = Count (sample_marshal review_full) ''}''"
    unfolding m by code_simp
  from C10_round_trip [where s = json_full and j = json_full and unm = sample_unmarshal
      and r = review_full and marshal = sample_marshal, OF 1 2 3 4 5 6 7] 1 3 m 6 7
  show ?thesis by simp
qed

text \<open>
  The claim as stated fails. The reply \<open>json_extra_key\<close> is parsed by the full-parse path
  into a review whose feedback is the text \<^verbatim>\<open>{\<close> (the \<^verbatim>\<open>}\<close> that balances it stands under a
  key the struct does not have). The serialization of that review holds three \<^verbatim>\<open>{\<close> and
  two \<^verbatim>\<open>}\<close>; fed back, it is answered with the total-failure default.
\<close>

theorem C10_counterexample:
  \<open>parseAIResponse sample_unmarshal json_extra_key
     = Inr (zero_review\<lparr>OverallScore := 85, InterviewerFeedback := ''{''\<rparr>)
   \<and> sample_marshal (zero_review\<lparr>OverallScore := 85, InterviewerFeedback := ''{''\<rparr>)
     = marshalled_brace
   \<and> sample_unmarshal marshalled_brace
     = Inr (zero_review\<lparr>OverallScore := 85, InterviewerFeedback := ''{''\<rparr>)
   \<and> parseAIResponse sample_unmarshal marshalled_brace
     = Inr (createFallbackReview ''Incomplete JSON response'' marshalled_brace)
   \<and> parseAIResponse sample_unmarshal
       (sample_marshal (zero_review\<lparr>OverallScore := 85, InterviewerFeedback := ''{''\<rparr>))
     \<noteq> Inr (zero_review\<lparr>OverallScore := 85, InterviewerFeedback := ''{''\<rparr>)\<close>
proof -
  have m: \<open>sample_marshal (zero_review\<lparr>OverallScore := 85, InterviewerFeedback := ''{''\<rparr>)
     = marshalled_brace\<close>
    by (simp add: sample_marshal_def review_full_def zero_review_def)
  have 1: \<open>parseAIResponse sample_unmarshal json_extra_key
     = Inr (zero_review\<lparr>OverallScore := 85, InterviewerFeedback := ''{''\<rparr>)\<close> by code_simp
  have 2: \<open>sample_unmarshal marshalled_brace
     = Inr (zero_review\<lparr>OverallScore := 85, InterviewerFeedback := ''{''\<rparr>)\<close> by code_simp
  have 3: \<open>parseAIResponse sample_unmarshal marshalled_brace
     = Inr (createFallbackReview ''Incomplete JSON response'' marshalled_brace)\<close> by code_simp
  have 4: \<open>parseAIResponse sample_unmarshal marshalled_brace
     \<noteq> Inr (zero_review\<lparr>OverallScore := 85, InterviewerFeedback := ''{''\<rparr>)\<close> by code_simp
  show ?thesis unfolding m using 1 2 3 4 by blast
qed

end
